theory Spec2Isabelle
  imports Main "HOL-Library.Sublist"
begin

section \<open>ACME assembler language support: scanner, statement classifier, lookups\<close>

text \<open>
  A shallow embedding of \<^verbatim>\<open>src/language/language_asm.js\<close>: the directive search
  \<^verbatim>\<open>AcmeGrammar.fuzzySearch\<close>, the cursor \<^verbatim>\<open>ParserIterator\<close>, and the methods
  \<^verbatim>\<open>parse\<close>, \<^verbatim>\<open>lexer\<close> and \<^verbatim>\<open>getTokenAtSourcePos\<close> of \<^verbatim>\<open>AcmeParser\<close>.
\<close>

subsection \<open>Strings and character codes\<close>

text \<open>
  A JavaScript string is a sequence of UTF-16 code units; \<^verbatim>\<open>charCodeAt\<close> reads one of
  them as a number, and NaN outside the string. A string is modelled as the list of its
  code units, NaN as \<open>None\<close>.
\<close>

type_synonym jsstring = "nat list"

definition codes :: "string \<Rightarrow> jsstring" where
  "codes s = map of_char s"

definition charCodeAt :: "jsstring \<Rightarrow> nat \<Rightarrow> nat option" where
  "charCodeAt s i = (if i < length s then Some (s ! i) else None)"

text \<open>
  \<^verbatim>\<open>s.substring(a, b)\<close> for \<open>0 \<le> a \<le> b\<close>: both bounds are clamped to the length.
\<close>

definition substring :: "jsstring \<Rightarrow> nat \<Rightarrow> nat \<Rightarrow> jsstring" where
  "substring s a b = drop a (take b s)"

text \<open>\<^verbatim>\<open>t.startsWith(q)\<close>: the code units of \<open>q\<close> are the first ones of \<open>t\<close>.\<close>

definition startsWith :: "jsstring \<Rightarrow> jsstring \<Rightarrow> bool" where
  "startsWith t q = (take (length q) t = q)"

text \<open>
  The code units \<^verbatim>\<open>String.prototype.trim\<close> strips: the white space and the line
  terminators of ECMAScript.
\<close>

definition js_trimmed :: "nat \<Rightarrow> bool" where
  "js_trimmed c = (c \<in> set [9, 10, 11, 12, 13, 32, 160, 5760, 8232, 8233, 8239, 8287, 12288, 65279]
     \<or> (8192 \<le> c \<and> c \<le> 8202))"

definition trim :: "jsstring \<Rightarrow> jsstring" where
  "trim s = rev (dropWhile js_trimmed (rev (dropWhile js_trimmed s)))"

text \<open>
  The members of \<^verbatim>\<open>CharCode\<close> (module \<^verbatim>\<open>utilities/utils\<close>) that the file uses, with
  their ASCII values.
\<close>

abbreviation (input) CharCode_LineFeed :: nat where "CharCode_LineFeed \<equiv> 10"

abbreviation (input) CharCode_CarriageReturn :: nat where "CharCode_CarriageReturn \<equiv> 13"

abbreviation (input) CharCode_Exclamation :: nat where "CharCode_Exclamation \<equiv> 33"

abbreviation (input) CharCode_DoubleQuote :: nat where "CharCode_DoubleQuote \<equiv> 34"

abbreviation (input) CharCode_SingleQuote :: nat where "CharCode_SingleQuote \<equiv> 39"

abbreviation (input) CharCode_Plus :: nat where "CharCode_Plus \<equiv> 43"

abbreviation (input) CharCode_Period :: nat where "CharCode_Period \<equiv> 46"

abbreviation (input) CharCode_Semicolon :: nat where "CharCode_Semicolon \<equiv> 59"

abbreviation (input) CharCode_Underscore :: nat where "CharCode_Underscore \<equiv> 95"

subsection \<open>The helpers the file imports\<close>

text \<open>
  \<^verbatim>\<open>ParserHelper.isAlpha\<close>, \<^verbatim>\<open>ParserHelper.isSymbolChar\<close> and
  \<^verbatim>\<open>ParserHelper.isWhitespace\<close> (module \<^verbatim>\<open>utilities/utils\<close>) and the opcode table
  behind \<^verbatim>\<open>token.isOpcode()\<close> (modules \<^verbatim>\<open>language/language_base\<close> and
  \<^verbatim>\<open>settings/settings\<close>) are parameters of the model: predicates on a character
  code, and on the text of a token.
\<close>

record helpers =
  isAlpha :: "nat \<Rightarrow> bool"
  isSymbolChar :: "nat \<Rightarrow> bool"
  isWhitespace :: "nat \<Rightarrow> bool"
  isOpcode :: "jsstring \<Rightarrow> bool"

text \<open>
  Modelled from the spec: the character classes of \<^verbatim>\<open>ParserHelper\<close>, which is not in
  this file. An alphabetic character is a letter; a symbol-constituent character is
  "alphanumeric/underscore/period"; white space is taken to be space, tab, CR and LF.
  The opcode table is the argument \<open>opcodes\<close>. This instance serves where a concrete
  helper is needed; the theorems hold for every helper.
\<close>

definition spec_isAlpha :: "nat \<Rightarrow> bool" where
  "spec_isAlpha c = ((65 \<le> c \<and> c \<le> 90) \<or> (97 \<le> c \<and> c \<le> 122))"

definition spec_isSymbolChar :: "nat \<Rightarrow> bool" where
  "spec_isSymbolChar c =
     (spec_isAlpha c \<or> (48 \<le> c \<and> c \<le> 57) \<or> c = CharCode_Underscore \<or> c = CharCode_Period)"

definition spec_isWhitespace :: "nat \<Rightarrow> bool" where
  "spec_isWhitespace c = (c = 32 \<or> c = 9 \<or> c = CharCode_CarriageReturn \<or> c = CharCode_LineFeed)"

definition spec_helpers :: "jsstring list \<Rightarrow> helpers" where
  "spec_helpers opcodes =
     \<lparr>isAlpha = spec_isAlpha, isSymbolChar = spec_isSymbolChar,
      isWhitespace = spec_isWhitespace, isOpcode = (\<lambda>t. t \<in> set opcodes)\<rparr>"

subsection \<open>AcmeGrammar\<close>

definition pseudoOpcodes :: "string list" where
  "pseudoOpcodes =
    [''fill'', ''fi'', ''align'', ''convtab'', ''ct'', ''text'', ''tx'', ''pet'', ''raw'', ''scr'',
     ''scrxor'', ''to'', ''source'', ''src'', ''binary'', ''bin'', ''zone'', ''zn'', ''sl'', ''svl'',
     ''sal'', ''pdb'', ''if'', ''ifdef'', ''for'', ''do'', ''endoffile'', ''warn'', ''error'',
     ''serious'', ''macro'', ''set'', ''initmem'', ''pseudopc'', ''cpu'', ''al'', ''as'', ''rl'',
     ''rs'', ''cbm'', ''subzone'', ''sz'', ''realpc'', ''previouscontext'', ''byte'', ''by'',
     ''word'', ''wo'']"

text \<open>
  \<^verbatim>\<open>fuzzySearch(query)\<close>; \<open>None\<close> is \<^verbatim>\<open>null\<close>. The loop over the vocabulary pushes,
  in order, every \<^verbatim>\<open>"!" + item\<close> that starts with the query.
\<close>

fun fuzzyItems :: "jsstring \<Rightarrow> string list \<Rightarrow> jsstring list" where
  "fuzzyItems query [] = []"
| "fuzzyItems query (item # rest) =
     (let token = CharCode_Exclamation # codes item
      in (if startsWith token query then [token] else []) @ fuzzyItems query rest)"

definition fuzzySearch :: "jsstring \<Rightarrow> jsstring list option" where
  "fuzzySearch query =
     (if query = [] \<or> length query < 1 then None
      else
        let items = (if charCodeAt query 0 = Some CharCode_Exclamation
                     then fuzzyItems query pseudoOpcodes else [])
        in if length items < 1 then None else Some items)"

subsection \<open>Spans, tokens, statements and the syntax tree\<close>

text \<open>
  Modelled from the spec: \<^verbatim>\<open>Range\<close>, \<^verbatim>\<open>Token\<close>, \<^verbatim>\<open>Statement\<close> and
  \<^verbatim>\<open>AbstractSyntaxTree\<close> of \<^verbatim>\<open>language/language_base\<close>, which is not in this file.
  A span is the offset, row and column of its first character and a length; it is
  created covering no character and \<^verbatim>\<open>inc\<close> grows it by one. A token is a kind, the
  source buffer, a span and the first-on-line flag; its text is the characters of its
  span. A statement is a kind and a start index and count into the token stream. The
  tree holds the tokens, the statements and the definitions, in order.
\<close>

record Range =
  range_offset :: nat
  range_row :: nat
  range_col :: nat
  range_length :: nat

definition new_Range :: "nat \<Rightarrow> nat \<Rightarrow> nat \<Rightarrow> Range" where
  "new_Range ofs row col =
     \<lparr>range_offset = ofs, range_row = row, range_col = col, range_length = 0\<rparr>"

definition inc :: "Range \<Rightarrow> Range" where
  "inc r = r\<lparr>range_length := range_length r + 1\<rparr>"

datatype TokenType =
  TokenType_LineBreak | TokenType_Comment | TokenType_Identifier
  | TokenType_Macro | TokenType_Reference | TokenType_String

record Token =
  token_type :: TokenType
  token_src :: jsstring
  token_range :: Range
  token_first :: bool

definition new_Token :: "TokenType \<Rightarrow> jsstring \<Rightarrow> Range \<Rightarrow> Token" where
  "new_Token ty src r = \<lparr>token_type = ty, token_src = src, token_range = r, token_first = False\<rparr>"

definition setFirstFlag :: "Token \<Rightarrow> Token" where
  "setFirstFlag t = t\<lparr>token_first := True\<rparr>"

definition token_text :: "Token \<Rightarrow> jsstring" where
  "token_text t =
     substring (token_src t) (range_offset (token_range t))
       (range_offset (token_range t) + range_length (token_range t))"

datatype StatementType = StatementType_Definition | StatementType_Comment

record Statement =
  statement_type :: StatementType
  statement_tokenOffset :: nat
  statement_tokenCount :: nat

definition new_Statement :: "StatementType \<Rightarrow> nat \<Rightarrow> nat \<Rightarrow> Statement" where
  "new_Statement ty ofs n =
     \<lparr>statement_type = ty, statement_tokenOffset = ofs, statement_tokenCount = n\<rparr>"

record AbstractSyntaxTree =
  ast_tokens :: "Token list"
  ast_statements :: "Statement list"
  ast_definitions :: "Statement list"

definition new_AbstractSyntaxTree :: AbstractSyntaxTree where
  "new_AbstractSyntaxTree = \<lparr>ast_tokens = [], ast_statements = [], ast_definitions = []\<rparr>"

definition addToken :: "AbstractSyntaxTree \<Rightarrow> Token \<Rightarrow> AbstractSyntaxTree" where
  "addToken ast t = ast\<lparr>ast_tokens := ast_tokens ast @ [t]\<rparr>"

definition addStatement :: "AbstractSyntaxTree \<Rightarrow> Statement \<Rightarrow> AbstractSyntaxTree" where
  "addStatement ast s = ast\<lparr>ast_statements := ast_statements ast @ [s]\<rparr>"

definition addDefinition :: "AbstractSyntaxTree \<Rightarrow> Statement \<Rightarrow> AbstractSyntaxTree" where
  "addDefinition ast s = ast\<lparr>ast_definitions := ast_definitions ast @ [s]\<rparr>"

subsection \<open>ParserIterator\<close>

record ParserIterator =
  it_src :: jsstring
  it_ofs :: nat
  it_row :: nat
  it_col :: nat

definition new_ParserIterator :: "jsstring \<Rightarrow> ParserIterator" where
  "new_ParserIterator src = \<lparr>it_src = src, it_ofs = 0, it_row = 0, it_col = 0\<rparr>"

text \<open>The field \<^verbatim>\<open>len\<close> is set to \<^verbatim>\<open>src.length\<close> by the constructor and never written.\<close>

definition it_len :: "ParserIterator \<Rightarrow> nat" where
  "it_len it = length (it_src it)"

definition eof :: "ParserIterator \<Rightarrow> bool" where
  "eof it = (it_ofs it \<ge> it_len it)"

definition peek :: "ParserIterator \<Rightarrow> nat" where
  "peek it = (if eof it then 0 else it_src it ! it_ofs it)"

definition next_it :: "ParserIterator \<Rightarrow> ParserIterator" where
  "next_it it = it\<lparr>it_ofs := it_ofs it + 1, it_col := it_col it + 1\<rparr>"

definition nextline :: "ParserIterator \<Rightarrow> ParserIterator" where
  "nextline it = it\<lparr>it_ofs := it_ofs it + 1, it_row := it_row it + 1, it_col := 0\<rparr>"

subsection \<open>The scanner: one iteration of the loop of \<^verbatim>\<open>parse\<close>\<close>

text \<open>
  The three inner loops of \<^verbatim>\<open>parse\<close> have one shape,
  \<^verbatim>\<open>while (it.ofs < len && P(src.charCodeAt(it.ofs))) { range.inc(); it.next(); }\<close>,
  with \<open>P\<close> "neither CR nor LF" for a comment, \<^verbatim>\<open>isSymbolChar\<close> for an identifier
  and a macro, and "not the quote" for a string.
\<close>

function scan_while :: "(nat \<Rightarrow> bool) \<Rightarrow> ParserIterator \<Rightarrow> Range \<Rightarrow> ParserIterator \<times> Range" where
  "scan_while P it rng =
     (if it_ofs it < it_len it \<and> P (it_src it ! it_ofs it)
      then scan_while P (next_it it) (inc rng)
      else (it, rng))"
  by pat_completeness auto
termination
  by (relation "measure (\<lambda>(P, it, rng). it_len it - it_ofs it)")
     (auto simp: next_it_def it_len_def)

text \<open>Lines 123 to 133: a line break; CR LF is one token.\<close>

definition scan_LineBreak :: "ParserIterator \<Rightarrow> nat \<Rightarrow> Token list \<times> ParserIterator" where
  "scan_LineBreak it c =
     (let src = it_src it; len = length src;
          rng = new_Range (it_ofs it) (it_row it) (it_col it);
          c2 = (if it_ofs it + 1 < len then src ! (it_ofs it + 1) else 0);
          (rng, it) = (if c = CharCode_CarriageReturn \<and> c2 = CharCode_LineFeed
                         then (inc rng, next_it it) else (rng, it));
          it = nextline it
      in ([new_Token TokenType_LineBreak src rng], it))"

text \<open>Lines 135 to 143: a comment runs to the end of the line.\<close>

definition scan_Comment :: "ParserIterator \<Rightarrow> Token list \<times> ParserIterator" where
  "scan_Comment it =
     (let src = it_src it;
          rng = new_Range (it_ofs it) (it_row it) (it_col it);
          (it, rng) =
            scan_while (\<lambda>x. x \<noteq> CharCode_CarriageReturn \<and> x \<noteq> CharCode_LineFeed) it rng
      in ([new_Token TokenType_Comment src rng], it))"

text \<open>
  Lines 148 to 176: an identifier, after the \<^verbatim>\<open>+\<close> of a macro call (a Reference token
  when no token of the line came before) or of an expression (skipped).
\<close>

definition scan_Identifier ::
  "helpers \<Rightarrow> ParserIterator \<Rightarrow> nat \<Rightarrow> nat \<Rightarrow> nat \<Rightarrow> Token list \<times> ParserIterator" where
  "scan_Identifier h it c c2 tokensPerLineCount =
     (let src = it_src it;
          (tokens, isReference, it) =
            (if c = CharCode_Plus \<and> isSymbolChar h c2 then
               (if tokensPerLineCount = 0 then
                  (let prefixRange = inc (new_Range (it_ofs it) (it_row it) (it_col it))
                   in ([new_Token TokenType_Reference src prefixRange], True, next_it it))
                else ([], False, next_it it))
             else ([], False, it));
          rng = new_Range (it_ofs it) (it_row it) (it_col it);
          (rng, it) = (if \<not> isReference then (inc rng, next_it it) else (rng, it));
          (it, rng) = scan_while (isSymbolChar h) it rng
      in (tokens @ [new_Token TokenType_Identifier src rng], it))"

text \<open>Lines 178 to 187: a directive or macro, from its \<^verbatim>\<open>!\<close>.\<close>

definition scan_Macro :: "helpers \<Rightarrow> ParserIterator \<Rightarrow> Token list \<times> ParserIterator" where
  "scan_Macro h it =
     (let src = it_src it;
          rng = inc (new_Range (it_ofs it) (it_row it) (it_col it));
          it = next_it it;
          (it, rng) = scan_while (isSymbolChar h) it rng
      in ([new_Token TokenType_Macro src rng], it))"

text \<open>Lines 189 to 204: a string, between its quotes or to the end of the input.\<close>

definition scan_String :: "ParserIterator \<Rightarrow> nat \<Rightarrow> Token list \<times> ParserIterator" where
  "scan_String it c =
     (let src = it_src it; len = length src;
          quoteChar = c;
          it = next_it it;
          rng = new_Range (it_ofs it) (it_row it) (it_col it);
          (it, rng) = scan_while (\<lambda>x. x \<noteq> quoteChar) it rng;
          it = (if it_ofs it < len then next_it it else it)
      in ([new_Token TokenType_String src rng], it))"

text \<open>
  Lines 118 to 208: the tokens of one iteration, and the cursor after it. The third
  argument is \<^verbatim>\<open>tokensPerLineCount\<close>, which the \<^verbatim>\<open>+\<close> rule reads.
\<close>

definition scan :: "helpers \<Rightarrow> ParserIterator \<Rightarrow> nat \<Rightarrow> Token list \<times> ParserIterator" where
  "scan h it tokensPerLineCount =
     (let src = it_src it; len = length src;
          c = peek it;
          c2 = (if it_ofs it + 1 < len then src ! (it_ofs it + 1) else 0)
      in
        if c = CharCode_CarriageReturn \<or> c = CharCode_LineFeed then scan_LineBreak it c
        else if c = CharCode_Semicolon then scan_Comment it
        else if c = CharCode_Plus \<and> c2 = CharCode_Plus then ([], next_it (next_it it))
        else if c = CharCode_Period \<or> c = CharCode_Underscore \<or> isAlpha h c
                \<or> (c = CharCode_Plus \<and> isSymbolChar h c2)
          then scan_Identifier h it c c2 tokensPerLineCount
        else if c = CharCode_Exclamation then scan_Macro h it
        else if c = CharCode_SingleQuote \<or> c = CharCode_DoubleQuote then scan_String it c
        else ([], next_it it))"

subsection \<open>The statement classifier\<close>

text \<open>
  \<^verbatim>\<open>lexer(tokenOffset, tokenCount)\<close>, on the tree it updates. \<^verbatim>\<open>tokenOffset\<close> is an
  integer: \<^verbatim>\<open>parse\<close> keeps \<open>-1\<close> for "no token yet". \<open>None\<close> is the TypeError of
  reading \<^verbatim>\<open>token.type\<close> where \<^verbatim>\<open>tokens[ofs]\<close> is undefined, which is the case of a
  negative offset once the length test has passed.
\<close>

definition lexer :: "helpers \<Rightarrow> AbstractSyntaxTree \<Rightarrow> int \<Rightarrow> nat \<Rightarrow> AbstractSyntaxTree option" where
  "lexer h ast tokenOffset tokenCount =
     (if tokenCount < 1 then Some ast
      else
        let ofs = tokenOffset; count = tokenCount; tokens = ast_tokens ast in
        if int (length tokens) < ofs + int count then Some ast
        else if ofs < 0 then None
        else
          let token = tokens ! nat ofs;
              tokenType = token_type token;
              statement =
                (if tokenType = TokenType_Identifier then
                   (if \<not> isOpcode h (token_text token)
                    then Some (new_Statement StatementType_Definition (nat ofs) 1) else None)
                 else if tokenType = TokenType_Comment then
                   Some (new_Statement StatementType_Comment (nat ofs) 1)
                 else if count > 1 then
                   (let token2 = tokens ! (nat ofs + 1);
                        macroCommand = token_text token
                    in if tokenType = TokenType_Macro
                          \<and> (macroCommand = codes ''!macro'' \<or> macroCommand = codes ''!set''
                               \<or> macroCommand = codes ''!addr'')
                          \<and> token_type token2 = TokenType_Identifier
                       then (if \<not> isOpcode h (token_text token2)
                             then Some (new_Statement StatementType_Definition (nat ofs + 1) 1)
                             else None)
                       else None)
                 else None)
          in (case statement of
                None \<Rightarrow> Some ast
              | Some st \<Rightarrow>
                  let ast = addStatement ast st
                  in Some (if statement_type st = StatementType_Definition
                           then addDefinition ast st else ast)))"

subsection \<open>The bookkeeping of the logical line\<close>

text \<open>
  The locals of \<^verbatim>\<open>parse\<close> that outlive an iteration, with the tree.
\<close>

record LineState =
  ps_ast :: AbstractSyntaxTree
  tokensPerLineOfs :: int
  tokensPerLineCount :: nat

text \<open>
  Lines 213 to 225, the body of the loop over the tokens of an iteration. The token
  object is the one \<^verbatim>\<open>addToken\<close> stored, so that setting its flag after the call is
  setting it in the stream.
\<close>

definition emit :: "helpers \<Rightarrow> LineState \<Rightarrow> Token \<Rightarrow> LineState option" where
  "emit h ps token0 =
     (let token = (if tokensPerLineCount ps = 0 then setFirstFlag token0 else token0);
          ast = addToken (ps_ast ps) token
      in
        if token_type token = TokenType_LineBreak \<or> token_type token = TokenType_Comment then
          (if tokensPerLineCount ps > 0 then
             (case lexer h ast (tokensPerLineOfs ps) (tokensPerLineCount ps) of
                None \<Rightarrow> None
              | Some ast' \<Rightarrow>
                  Some \<lparr>ps_ast = ast', tokensPerLineOfs = - 1, tokensPerLineCount = 0\<rparr>)
           else Some (ps\<lparr>ps_ast := ast\<rparr>))
        else
          Some \<lparr>ps_ast = ast,
                tokensPerLineOfs =
                  (if tokensPerLineOfs ps = - 1 then int (length (ast_tokens ast)) - 1
                   else tokensPerLineOfs ps),
                tokensPerLineCount = tokensPerLineCount ps + 1\<rparr>)"

fun emit_all :: "helpers \<Rightarrow> LineState \<Rightarrow> Token list \<Rightarrow> LineState option" where
  "emit_all h ps [] = Some ps"
| "emit_all h ps (token # tokens) =
     (case emit h ps token of None \<Rightarrow> None | Some ps' \<Rightarrow> emit_all h ps' tokens)"

subsection \<open>Position lookup\<close>

text \<open>
  \<^verbatim>\<open>getTokenAtSourcePos(source, offset, leftOnly, greedyParsing)\<close>, lines 292 to 320.
  The helpers take the result of \<^verbatim>\<open>charCodeAt\<close>; on NaN every comparison they can
  make is false, so they are taken to answer false there.
\<close>

definition on_code :: "(nat \<Rightarrow> bool) \<Rightarrow> nat option \<Rightarrow> bool" where
  "on_code P c = (case c of None \<Rightarrow> False | Some n \<Rightarrow> P n)"

text \<open>
  Line 303 is \<^verbatim>\<open>if (c == '.') break;\<close> with \<open>c\<close> a number and \<^verbatim>\<open>'.'\<close> a string.
  The loose equality of ECMAScript converts the string to a number; \<^verbatim>\<open>"."\<close> is no
  numeric literal, so the conversion gives NaN, which equals no number.
\<close>

definition toNumber_period :: "nat option" where
  "toNumber_period = None"

definition loose_eq_period :: "nat option \<Rightarrow> bool" where
  "loose_eq_period c = (c \<noteq> None \<and> toNumber_period \<noteq> None \<and> c = toNumber_period)"

text \<open>The first loop, lines 294 to 304, as the value of \<^verbatim>\<open>startPos\<close> after it.\<close>

fun expandLeft :: "helpers \<Rightarrow> bool \<Rightarrow> jsstring \<Rightarrow> nat \<Rightarrow> nat" where
  "expandLeft h greedyParsing source 0 = 0"
| "expandLeft h greedyParsing source (Suc p) =
     (let c = charCodeAt source p in
      if (if greedyParsing then on_code (isWhitespace h) c
          else c \<noteq> Some CharCode_Period \<and> \<not> on_code (isSymbolChar h) c)
      then Suc p
      else if loose_eq_period c then p
      else expandLeft h greedyParsing source p)"

text \<open>The second loop, lines 309 to 313, as the value of \<^verbatim>\<open>endPos\<close> after it.\<close>

function expandRight :: "helpers \<Rightarrow> jsstring \<Rightarrow> nat \<Rightarrow> nat" where
  "expandRight h source endPos =
     (if endPos < length source
      then (if \<not> isSymbolChar h (source ! endPos) then endPos
            else expandRight h source (endPos + 1))
      else endPos)"
  by pat_completeness auto
termination
  by (relation "measure (\<lambda>(h, source, endPos). length source - endPos)") auto

declare expandRight.simps [simp del]

definition getTokenAtSourcePos ::
  "helpers \<Rightarrow> jsstring \<Rightarrow> nat \<Rightarrow> bool \<Rightarrow> bool \<Rightarrow> jsstring option" where
  "getTokenAtSourcePos h source offset leftOnly greedyParsing =
     (let startPos = expandLeft h greedyParsing source offset;
          endPos = offset + 1;
          endPos = (if \<not> leftOnly then expandRight h source endPos else endPos);
          token = trim (substring source startPos endPos)
      in if length token < 1 then None else Some token)"

section \<open>The vocabulary of the properties\<close>

subsection \<open>Spans\<close>

text \<open>
  \<open>spans_ordered lo ts\<close>: the first span starts at \<open>lo\<close> or later, and each further
  span starts where the span before it ends, or later. \<open>spans_end lo ts\<close> is the end
  of the last span (\<open>lo\<close> when there is none).
\<close>

fun spans_ordered :: "nat \<Rightarrow> Token list \<Rightarrow> bool" where
  "spans_ordered lo [] = True"
| "spans_ordered lo (t # ts) =
     (lo \<le> range_offset (token_range t)
      \<and> spans_ordered (range_offset (token_range t) + range_length (token_range t)) ts)"

fun spans_end :: "nat \<Rightarrow> Token list \<Rightarrow> nat" where
  "spans_end lo [] = lo"
| "spans_end lo (t # ts) =
     spans_end (range_offset (token_range t) + range_length (token_range t)) ts"

text \<open>The first offset of the span of a token, and the first offset after it.\<close>

definition span_start :: "Token \<Rightarrow> nat" where
  "span_start t = range_offset (token_range t)"

definition span_end :: "Token \<Rightarrow> nat" where
  "span_end t = range_offset (token_range t) + range_length (token_range t)"

text \<open>The kind, the start offset and the length of the span of every token, in order.\<close>

definition token_spans :: "AbstractSyntaxTree \<Rightarrow> (TokenType \<times> nat \<times> nat) list" where
  "token_spans ast =
     map (\<lambda>t. (token_type t, range_offset (token_range t), range_length (token_range t)))
       (ast_tokens ast)"

text \<open>
  What every iteration keeps: the buffer is the same, the cursor has moved forward, the
  spans of the tokens lie in order between the two cursor positions, and the tokens
  come without the first-on-line flag.
\<close>

definition step_ok :: "ParserIterator \<Rightarrow> Token list \<times> ParserIterator \<Rightarrow> bool" where
  "step_ok it r =
     (it_src (snd r) = it_src it \<and> it_ofs it < it_ofs (snd r)
      \<and> spans_ordered (it_ofs it) (fst r) \<and> spans_end (it_ofs it) (fst r) \<le> it_ofs (snd r)
      \<and> list_all (\<lambda>t. \<not> token_first t \<and> token_src t = it_src it) (fst r))"

text \<open>
  The tokens whose span holds the position \<open>p\<close>. A position is accounted for when
  exactly one span holds it, or when none does and its character is one that the
  scanner can leave out of every span: a character of a line break, a plus sign, a
  quote, or a character that starts no token.
\<close>

definition covering :: "nat \<Rightarrow> Token list \<Rightarrow> Token list" where
  "covering p ts = filter (\<lambda>t. span_start t \<le> p \<and> p < span_end t) ts"

definition starts_token :: "helpers \<Rightarrow> nat \<Rightarrow> bool" where
  "starts_token h c =
     (c = CharCode_Semicolon \<or> c = CharCode_Period \<or> c = CharCode_Underscore \<or> isAlpha h c
      \<or> c = CharCode_Exclamation)"

definition left_out :: "helpers \<Rightarrow> nat \<Rightarrow> bool" where
  "left_out h c =
     (c = CharCode_CarriageReturn \<or> c = CharCode_LineFeed \<or> c = CharCode_Plus
      \<or> c = CharCode_SingleQuote \<or> c = CharCode_DoubleQuote \<or> \<not> starts_token h c)"

definition accounted :: "helpers \<Rightarrow> jsstring \<Rightarrow> Token list \<Rightarrow> nat \<Rightarrow> bool" where
  "accounted h src ts p =
     (length (covering p ts) = 1 \<or> (covering p ts = [] \<and> left_out h (src ! p)))"

text \<open>
  An iteration accounts for the characters it consumes; the loop has accounted for the
  characters before the cursor.
\<close>

definition step_accounts :: "helpers \<Rightarrow> ParserIterator \<Rightarrow> Token list \<times> ParserIterator \<Rightarrow> bool" where
  "step_accounts h it r =
     (\<forall>p. it_ofs it \<le> p \<and> p < it_ofs (snd r) \<and> p < length (it_src it)
          \<longrightarrow> accounted h (it_src it) (fst r) p)"

definition accounts_upto :: "helpers \<Rightarrow> jsstring \<Rightarrow> ParserIterator \<Rightarrow> LineState \<Rightarrow> bool" where
  "accounts_upto h src it ps =
     (\<forall>p. p < it_ofs it \<and> p < length src \<longrightarrow> accounted h src (ast_tokens (ps_ast ps)) p)"

text \<open>The cursor is inside the buffer, or just after its last character.\<close>

definition within :: "ParserIterator \<Rightarrow> bool" where
  "within it = (it_ofs it \<le> length (it_src it))"

subsection \<open>Logical lines\<close>

text \<open>
  A LineBreak or a Comment token ends a logical line and is not counted into one.
  \<open>line_count ts\<close> is the number of tokens that the current line has gathered once
  the tokens \<open>ts\<close> have been emitted: the length of the run of counted tokens at the
  end of \<open>ts\<close>. \<open>line_inv\<close> says that the two counters of \<^verbatim>\<open>parse\<close> are that number
  and the index where that run starts (\<open>-1\<close> when it is empty); \<open>flags_ok\<close> that a
  token has the first-on-line flag exactly when the count was zero as it was emitted.
\<close>

definition terminates_line :: "Token \<Rightarrow> bool" where
  "terminates_line t = (token_type t = TokenType_LineBreak \<or> token_type t = TokenType_Comment)"

definition line_count :: "Token list \<Rightarrow> nat" where
  "line_count ts = length (takeWhile (\<lambda>t. \<not> terminates_line t) (rev ts))"

definition line_inv :: "LineState \<Rightarrow> bool" where
  "line_inv ps =
     (tokensPerLineCount ps = line_count (ast_tokens (ps_ast ps))
      \<and> tokensPerLineOfs ps =
          (if tokensPerLineCount ps = 0 then - 1
           else int (length (ast_tokens (ps_ast ps))) - int (tokensPerLineCount ps)))"

definition flags_ok :: "Token list \<Rightarrow> bool" where
  "flags_ok ts = (\<forall>i < length ts. token_first (ts ! i) = (line_count (take i ts) = 0))"

text \<open>Every statement of the tree is a Definition statement.\<close>

definition only_definitions :: "AbstractSyntaxTree \<Rightarrow> bool" where
  "only_definitions ast =
     list_all (\<lambda>st. statement_type st = StatementType_Definition) (ast_statements ast)"

text \<open>
  What the loop of \<^verbatim>\<open>parse\<close> keeps, for the buffer \<open>src\<close>: the cursor reads
  \<open>src\<close>; the counters are right; the flags are right; the spans are in order and end
  at the cursor or before it; and all statements are Definition statements.
\<close>

definition loop_inv :: "jsstring \<Rightarrow> ParserIterator \<Rightarrow> LineState \<Rightarrow> bool" where
  "loop_inv src it ps =
     (it_src it = src \<and> line_inv ps \<and> flags_ok (ast_tokens (ps_ast ps))
      \<and> spans_ordered 0 (ast_tokens (ps_ast ps))
      \<and> spans_end 0 (ast_tokens (ps_ast ps)) \<le> it_ofs it
      \<and> only_definitions (ps_ast ps))"

text \<open>
  The two ways in which a line is a definition: its first token is an identifier that
  is no opcode; or it has a second token, the text of the first, a Macro token, is
  \<^verbatim>\<open>!macro\<close>, \<^verbatim>\<open>!set\<close> or \<^verbatim>\<open>!addr\<close>, and the second is an identifier that is no
  opcode.
\<close>

definition defines_by_label :: "helpers \<Rightarrow> Token list \<Rightarrow> nat \<Rightarrow> bool" where
  "defines_by_label h tokens ofs =
     (token_type (tokens ! ofs) = TokenType_Identifier \<and> \<not> isOpcode h (token_text (tokens ! ofs)))"

definition defines_by_directive :: "helpers \<Rightarrow> Token list \<Rightarrow> nat \<Rightarrow> nat \<Rightarrow> bool" where
  "defines_by_directive h tokens ofs count =
     (count > 1 \<and> token_type (tokens ! ofs) = TokenType_Macro
      \<and> token_text (tokens ! ofs) \<in> {codes ''!macro'', codes ''!set'', codes ''!addr''}
      \<and> token_type (tokens ! (ofs + 1)) = TokenType_Identifier
      \<and> \<not> isOpcode h (token_text (tokens ! (ofs + 1))))"

section \<open>The loop of \<^verbatim>\<open>parse\<close>\<close>

subsection \<open>What one iteration does to the cursor\<close>

declare scan_while.simps [simp del]

text \<open>
  The inner loop stops at the first character that fails \<open>P\<close>, or at the end of the
  input: it consumes the longest run of \<open>P\<close> characters at the cursor.
\<close>

lemma scan_while_closed:
  "scan_while P it rng =
     (let n = length (takeWhile P (drop (it_ofs it) (it_src it)))
      in (it\<lparr>it_ofs := it_ofs it + n, it_col := it_col it + n\<rparr>,
          rng\<lparr>range_length := range_length rng + n\<rparr>))"
proof (induction P it rng rule: scan_while.induct)
  case (1 P it rng)
  show ?case
  proof (cases "it_ofs it < it_len it \<and> P (it_src it ! it_ofs it)")
    case True
    then have d: "drop (it_ofs it) (it_src it)
        = it_src it ! it_ofs it # drop (Suc (it_ofs it)) (it_src it)"
      by (simp add: it_len_def Cons_nth_drop_Suc)
    show ?thesis
      using True 1 d
      by (subst scan_while.simps) (simp add: next_it_def inc_def Let_def)
  next
    case False
    then have "takeWhile P (drop (it_ofs it) (it_src it)) = []"
      by (auto simp: it_len_def takeWhile_eq_Nil_iff hd_drop_conv_nth)
    then show ?thesis
      using False by (subst scan_while.simps) (auto simp: Let_def)
  qed
qed

lemma scan_LineBreak_ok: "step_ok it (scan_LineBreak it c)"
  by (simp add: step_ok_def scan_LineBreak_def Let_def next_it_def nextline_def new_Token_def
      new_Range_def inc_def)

lemma scan_Comment_ok:
  assumes "\<not> eof it" and "peek it = CharCode_Semicolon"
  shows "step_ok it (scan_Comment it)"
proof -
  from assms have "drop (it_ofs it) (it_src it)
      = CharCode_Semicolon # drop (Suc (it_ofs it)) (it_src it)"
    by (simp add: eof_def peek_def it_len_def flip: Cons_nth_drop_Suc)
  then show ?thesis
    by (simp add: step_ok_def scan_Comment_def scan_while_closed Let_def new_Token_def
        new_Range_def)
qed

lemma scan_Identifier_ok: "step_ok it (scan_Identifier h it c c2 n)"
  by (simp add: step_ok_def scan_Identifier_def scan_while_closed Let_def next_it_def
      new_Token_def new_Range_def inc_def)

lemma scan_Macro_ok: "step_ok it (scan_Macro h it)"
  by (simp add: step_ok_def scan_Macro_def scan_while_closed Let_def next_it_def new_Token_def
      new_Range_def inc_def)

lemma scan_String_ok: "step_ok it (scan_String it c)"
  by (simp add: step_ok_def scan_String_def scan_while_closed Let_def next_it_def new_Token_def
      new_Range_def inc_def)

lemma scan_ok: "\<not> eof it \<Longrightarrow> step_ok it (scan h it n)"
  unfolding scan_def Let_def
  by (auto simp: scan_LineBreak_ok scan_Comment_ok scan_Identifier_ok scan_Macro_ok scan_String_ok)
     (simp_all add: step_ok_def next_it_def)

subsection \<open>The loop of \<^verbatim>\<open>parse\<close>, and \<^verbatim>\<open>parse\<close>\<close>

text \<open>
  Lines 116 to 229. \<open>None\<close> is an exception out of \<^verbatim>\<open>lexer\<close>.
\<close>

function parse_loop :: "helpers \<Rightarrow> ParserIterator \<Rightarrow> LineState \<Rightarrow> LineState option" where
  "parse_loop h it ps =
     (if eof it then Some ps
      else
        let (tokens, it') = scan h it (tokensPerLineCount ps)
        in case emit_all h ps tokens of
             None \<Rightarrow> None
           | Some ps' \<Rightarrow> parse_loop h it' ps')"
  by pat_completeness auto
termination
proof (relation "measure (\<lambda>(h, it, ps). it_len it - it_ofs it)")
  show "wf (measure (\<lambda>(h, it, ps). it_len it - it_ofs it))"
    by simp
next
  fix h :: helpers and it :: ParserIterator and ps :: LineState
    and x tokens it' ps'
  assume "\<not> eof it" and x: "x = scan h it (tokensPerLineCount ps)" "(tokens, it') = x"
  then have "step_ok it (tokens, it')"
    using scan_ok [of it h "tokensPerLineCount ps"] by simp
  with \<open>\<not> eof it\<close> show "((h, it', ps'), (h, it, ps)) \<in> measure (\<lambda>(h, it, ps). it_len it - it_ofs it)"
    by (auto simp: step_ok_def eof_def it_len_def)
qed

declare parse_loop.simps [simp del]

text \<open>
  Modelled from the spec: \<^verbatim>\<open>super.parse\<close>, of \<^verbatim>\<open>ParserBase\<close> in
  \<^verbatim>\<open>language/language_base\<close>, is not in this file; it replaces the tree by an empty
  one, and the file name is a label only. With that, this is
  \<^verbatim>\<open>parse(src, filename)\<close>, lines 104 to 235, as the tree it leaves in
  \<^verbatim>\<open>this._ast\<close>: the loop, and the last call of \<^verbatim>\<open>lexer\<close> for a line that no
  line break ends.
\<close>

definition parse :: "helpers \<Rightarrow> jsstring \<Rightarrow> AbstractSyntaxTree option" where
  "parse h src =
     (case parse_loop h (new_ParserIterator src)
             \<lparr>ps_ast = new_AbstractSyntaxTree, tokensPerLineOfs = - 1, tokensPerLineCount = 0\<rparr> of
        None \<Rightarrow> None
      | Some ps \<Rightarrow>
          if tokensPerLineCount ps > 0
          then lexer h (ps_ast ps) (tokensPerLineOfs ps) (tokensPerLineCount ps)
          else Some (ps_ast ps))"

text \<open>
  The same loop with a bound on the number of iterations; the outer \<open>None\<close> says that
  the bound was reached before the end of the input.
\<close>

fun parse_loop_bounded ::
  "nat \<Rightarrow> helpers \<Rightarrow> ParserIterator \<Rightarrow> LineState \<Rightarrow> LineState option option" where
  "parse_loop_bounded 0 h it ps = (if eof it then Some (Some ps) else None)"
| "parse_loop_bounded (Suc k) h it ps =
     (if eof it then Some (Some ps)
      else
        let (tokens, it') = scan h it (tokensPerLineCount ps)
        in case emit_all h ps tokens of
             None \<Rightarrow> Some None
           | Some ps' \<Rightarrow> parse_loop_bounded k h it' ps')"

section \<open>Facts about the scanner and the classifier\<close>

subsection \<open>Evaluating the loop on a given input\<close>

lemma parse_loop_eof: "eof it \<Longrightarrow> parse_loop h it ps = Some ps"
  by (subst parse_loop.simps) simp

lemma parse_loop_step:
  "\<not> eof it \<Longrightarrow> parse_loop h it ps =
     (case emit_all h ps (fst (scan h it (tokensPerLineCount ps))) of
        None \<Rightarrow> None
      | Some ps' \<Rightarrow> parse_loop h (snd (scan h it (tokensPerLineCount ps))) ps')"
  by (subst parse_loop.simps) (simp add: split_beta)

lemmas parse_eval =
  parse_def parse_loop_eof parse_loop_step scan_def scan_LineBreak_def scan_Comment_def
  scan_Identifier_def scan_Macro_def scan_String_def scan_while_closed Let_def next_it_def
  nextline_def new_Token_def new_Range_def inc_def eof_def it_len_def peek_def codes_def
  new_ParserIterator_def emit_def lexer_def addToken_def addStatement_def addDefinition_def
  new_AbstractSyntaxTree_def setFirstFlag_def new_Statement_def token_text_def substring_def

lemmas spec_eval = spec_helpers_def spec_isAlpha_def spec_isSymbolChar_def spec_isWhitespace_def

subsection \<open>The classifier\<close>

text \<open>
  \<^verbatim>\<open>lexer\<close> leaves the tokens alone, and with an offset that is not negative it
  returns. On a line that lies in the stream its result is one of four trees.
\<close>

lemma lexer_tokens:
  "lexer h ast ofs n = Some ast' \<Longrightarrow> ast_tokens ast' = ast_tokens ast"
  by (auto simp: lexer_def Let_def addStatement_def addDefinition_def
      split: if_splits option.splits)

lemma lexer_total: "0 \<le> ofs \<Longrightarrow> \<exists>ast'. lexer h ast ofs n = Some ast'"
  by (simp add: lexer_def Let_def split: option.splits)

lemma lexer_cases:
  assumes "1 \<le> count" and "ofs + count \<le> length (ast_tokens ast)"
  shows "lexer h ast (int ofs) count = Some
     (if defines_by_label h (ast_tokens ast) ofs then
        ast\<lparr>ast_statements := ast_statements ast @ [new_Statement StatementType_Definition ofs 1],
            ast_definitions := ast_definitions ast @ [new_Statement StatementType_Definition ofs 1]\<rparr>
      else if defines_by_directive h (ast_tokens ast) ofs count then
        ast\<lparr>ast_statements :=
              ast_statements ast @ [new_Statement StatementType_Definition (ofs + 1) 1],
            ast_definitions :=
              ast_definitions ast @ [new_Statement StatementType_Definition (ofs + 1) 1]\<rparr>
      else if token_type (ast_tokens ast ! ofs) = TokenType_Comment then
        ast\<lparr>ast_statements := ast_statements ast @ [new_Statement StatementType_Comment ofs 1]\<rparr>
      else ast)"
  using assms
  by (auto simp: lexer_def Let_def defines_by_label_def defines_by_directive_def
      addStatement_def addDefinition_def new_Statement_def)

subsection \<open>The counters of the line\<close>

lemma line_count_le: "line_count ts \<le> length ts"
  unfolding line_count_def by (metis length_rev length_takeWhile_le)

lemma line_count_snoc:
  "line_count (ts @ [t]) = (if terminates_line t then 0 else Suc (line_count ts))"
  by (simp add: line_count_def)

text \<open>
  With the counters right, emitting a token never fails and keeps them right; the
  token joins the stream, flagged when the count was zero.
\<close>

lemma emit_line_inv:
  assumes "line_inv ps"
  shows "\<exists>ps'. emit h ps t = Some ps' \<and> line_inv ps'
           \<and> ast_tokens (ps_ast ps') = ast_tokens (ps_ast ps)
                @ [if tokensPerLineCount ps = 0 then setFirstFlag t else t]"
proof -
  let ?toks = "ast_tokens (ps_ast ps)"
  let ?t' = "if tokensPerLineCount ps = 0 then setFirstFlag t else t"
  let ?ast = "addToken (ps_ast ps) ?t'"
  have ty: "terminates_line ?t' = terminates_line t" "token_type ?t' = token_type t"
    by (simp_all add: terminates_line_def setFirstFlag_def)
  have cnt: "tokensPerLineCount ps = line_count ?toks"
    and ofs: "tokensPerLineOfs ps = (if tokensPerLineCount ps = 0 then - 1
           else int (length ?toks) - int (tokensPerLineCount ps))"
    using assms by (simp_all add: line_inv_def)
  have le: "tokensPerLineCount ps \<le> length ?toks"
    using cnt line_count_le by simp
  show ?thesis
  proof (cases "terminates_line t")
    case isterm: True
    show ?thesis
    proof (cases "tokensPerLineCount ps > 0")
      case True
      then have "0 \<le> tokensPerLineOfs ps" using ofs le by simp
      then obtain ast' where l: "lexer h ?ast (tokensPerLineOfs ps) (tokensPerLineCount ps) = Some ast'"
        using lexer_total by blast
      then have "ast_tokens ast' = ?toks @ [?t']"
        using lexer_tokens [OF l] by (simp add: addToken_def)
      with l True isterm ty show ?thesis
        by (simp add: emit_def Let_def line_inv_def line_count_snoc terminates_line_def)
    next
      case False
      with isterm ty cnt ofs show ?thesis
        by (simp add: emit_def Let_def line_inv_def line_count_snoc terminates_line_def addToken_def)
    qed
  next
    case False
    with ty cnt ofs le show ?thesis
      by (auto simp: emit_def Let_def line_inv_def line_count_snoc terminates_line_def addToken_def)
  qed
qed

lemma flags_ok_snoc:
  "flags_ok (ts @ [t]) = (flags_ok ts \<and> token_first t = (line_count ts = 0))"
  by (auto simp: flags_ok_def nth_append less_Suc_eq)

lemma emit_inv:
  assumes "line_inv ps" and "flags_ok (ast_tokens (ps_ast ps))" and "\<not> token_first t"
  shows "\<exists>ps'. emit h ps t = Some ps' \<and> line_inv ps' \<and> flags_ok (ast_tokens (ps_ast ps'))
           \<and> map token_range (ast_tokens (ps_ast ps'))
               = map token_range (ast_tokens (ps_ast ps)) @ [token_range t]"
proof -
  obtain ps' where e: "emit h ps t = Some ps'" "line_inv ps'"
    "ast_tokens (ps_ast ps') = ast_tokens (ps_ast ps)
                @ [if tokensPerLineCount ps = 0 then setFirstFlag t else t]"
    using emit_line_inv [OF assms(1)] by blast
  moreover have "tokensPerLineCount ps = line_count (ast_tokens (ps_ast ps))"
    using assms(1) by (simp add: line_inv_def)
  ultimately show ?thesis
    using assms(2,3) by (auto simp: flags_ok_snoc setFirstFlag_def)
qed

lemma emit_all_inv:
  assumes "line_inv ps" and "flags_ok (ast_tokens (ps_ast ps))"
    and "list_all (\<lambda>t. \<not> token_first t) ts"
  shows "\<exists>ps'. emit_all h ps ts = Some ps' \<and> line_inv ps' \<and> flags_ok (ast_tokens (ps_ast ps'))
           \<and> map token_range (ast_tokens (ps_ast ps'))
               = map token_range (ast_tokens (ps_ast ps)) @ map token_range ts"
  using assms
proof (induction ts arbitrary: ps)
  case Nil
  then show ?case by simp
next
  case (Cons t ts)
  then obtain ps1 where p1: "emit h ps t = Some ps1" "line_inv ps1"
    "flags_ok (ast_tokens (ps_ast ps1))"
    "map token_range (ast_tokens (ps_ast ps1))
       = map token_range (ast_tokens (ps_ast ps)) @ [token_range t]"
    using emit_inv [of ps t h] by auto
  from Cons.IH [OF p1(2,3)] Cons.prems(3) p1(1,4) show ?case
    by auto
qed

text \<open>
  The token at which the current line starts is a counted token, so it is no Comment
  token: the call of \<^verbatim>\<open>lexer\<close> from \<^verbatim>\<open>parse\<close> can only add a Definition
  statement.
\<close>

lemma line_start_counted:
  assumes "0 < line_count ts"
  shows "\<not> terminates_line (ts ! (length ts - line_count ts))"
proof -
  let ?P = "\<lambda>t. \<not> terminates_line t"
  let ?k = "line_count ts"
  have k: "?k - 1 < length (takeWhile ?P (rev ts))"
    using assms by (simp add: line_count_def)
  have le: "?k \<le> length ts" by (rule line_count_le)
  have "takeWhile ?P (rev ts) ! (?k - 1) \<in> set (takeWhile ?P (rev ts))"
    using k by (rule nth_mem)
  then have "?P (takeWhile ?P (rev ts) ! (?k - 1))"
    by (rule set_takeWhileD [THEN conjunct2])
  moreover have "takeWhile ?P (rev ts) ! (?k - 1) = rev ts ! (?k - 1)"
    using k by (rule takeWhile_nth)
  moreover have "rev ts ! (?k - 1) = ts ! (length ts - ?k)"
    using assms le by (simp add: rev_nth)
  ultimately show ?thesis by simp
qed

lemma lexer_only_definitions:
  assumes "line_inv ps" and "0 < tokensPerLineCount ps"
    and "only_definitions (ps_ast ps)"
    and "ast_tokens ast = ast_tokens (ps_ast ps) @ ts"
    and "ast_statements ast = ast_statements (ps_ast ps)"
    and "lexer h ast (tokensPerLineOfs ps) (tokensPerLineCount ps) = Some ast'"
  shows "only_definitions ast'"
proof -
  let ?toks = "ast_tokens (ps_ast ps)"
  let ?n = "tokensPerLineCount ps"
  let ?ofs = "length ?toks - ?n"
  have n: "?n = line_count ?toks" and le: "?n \<le> length ?toks"
    using assms(1) line_count_le [of ?toks] by (simp_all add: line_inv_def)
  have o: "tokensPerLineOfs ps = int ?ofs"
    using assms(1,2) le by (simp add: line_inv_def)
  have "\<not> terminates_line (?toks ! ?ofs)"
    using line_start_counted [of ?toks] assms(2) n by simp
  moreover have "ast_tokens ast ! ?ofs = ?toks ! ?ofs"
    using assms(2,4) le by (simp add: nth_append)
  ultimately have nc: "token_type (ast_tokens ast ! ?ofs) \<noteq> TokenType_Comment"
    by (simp add: terminates_line_def)
  have "1 \<le> ?n" "?ofs + ?n \<le> length (ast_tokens ast)"
    using assms(2,4) le by simp_all
  from lexer_cases [OF this, of h] assms(6) nc assms(3,5) show ?thesis
    by (auto simp: o only_definitions_def new_Statement_def split: if_splits)
qed

lemma emit_only_definitions:
  assumes "line_inv ps" and "only_definitions (ps_ast ps)" and "emit h ps t = Some ps'"
  shows "only_definitions (ps_ast ps')"
proof (cases "(token_type t = TokenType_LineBreak \<or> token_type t = TokenType_Comment)
    \<and> 0 < tokensPerLineCount ps")
  case True
  let ?ast = "addToken (ps_ast ps) t"
  from True assms(3) obtain ast' where
    l: "lexer h ?ast (tokensPerLineOfs ps) (tokensPerLineCount ps) = Some ast'"
    and p: "ps_ast ps' = ast'"
    by (auto simp: emit_def Let_def setFirstFlag_def split: option.splits)
  have "only_definitions ast'"
    using True l
    by (intro lexer_only_definitions [OF assms(1) _ assms(2), of ?ast "[t]" h])
       (simp_all add: addToken_def)
  with p show ?thesis by simp
next
  case False
  with assms(2,3) show ?thesis
    by (auto simp: emit_def Let_def setFirstFlag_def only_definitions_def addToken_def
        split: if_splits)
qed

lemma emit_all_only_definitions:
  assumes "line_inv ps" and "only_definitions (ps_ast ps)" and "emit_all h ps ts = Some ps'"
  shows "only_definitions (ps_ast ps')"
  using assms
proof (induction ts arbitrary: ps)
  case Nil
  then show ?case by simp
next
  case (Cons t ts)
  from Cons.prems(3) obtain ps1 where e: "emit h ps t = Some ps1" "emit_all h ps1 ts = Some ps'"
    by (auto split: option.splits)
  have "line_inv ps1"
    using emit_line_inv [OF Cons.prems(1), of h t] e(1) by auto
  moreover have "only_definitions (ps_ast ps1)"
    using emit_only_definitions [OF Cons.prems(1,2) e(1)] .
  ultimately show ?case
    using Cons.IH e(2) by blast
qed

subsection \<open>Spans in order\<close>

lemma spans_ordered_append:
  "spans_ordered lo (xs @ ys) = (spans_ordered lo xs \<and> spans_ordered (spans_end lo xs) ys)"
  by (induction xs arbitrary: lo) simp_all

lemma spans_end_append: "spans_end lo (xs @ ys) = spans_end (spans_end lo xs) ys"
  by (induction xs arbitrary: lo) simp_all

lemma spans_ordered_mono: "spans_ordered lo ts \<Longrightarrow> lo' \<le> lo \<Longrightarrow> spans_ordered lo' ts"
  by (cases ts) simp_all

lemma spans_end_nonempty: "ts \<noteq> [] \<Longrightarrow> spans_end a ts = spans_end b ts"
  by (cases ts) simp_all

lemma spans_ordered_ranges:
  "map token_range xs = map token_range ys \<Longrightarrow> spans_ordered lo xs = spans_ordered lo ys"
proof (induction xs arbitrary: ys lo)
  case Nil
  then show ?case by simp
next
  case (Cons x xs)
  then obtain y ys' where "ys = y # ys'" by (cases ys) auto
  with Cons show ?case by auto
qed

lemma spans_end_ranges:
  "map token_range xs = map token_range ys \<Longrightarrow> spans_end lo xs = spans_end lo ys"
proof (induction xs arbitrary: ys lo)
  case Nil
  then show ?case by simp
next
  case (Cons x xs)
  then obtain y ys' where "ys = y # ys'" by (cases ys) auto
  with Cons show ?case by auto
qed

lemma spans_end_ge: "spans_ordered lo ts \<Longrightarrow> lo \<le> spans_end lo ts"
proof (induction ts arbitrary: lo)
  case Nil
  then show ?case by simp
next
  case (Cons t ts)
  from Cons.prems Cons.IH [of "range_offset (token_range t) + range_length (token_range t)"]
  show ?case by simp
qed

lemma spans_end_bound:
  "spans_ordered lo ts \<Longrightarrow> list_all (\<lambda>t. span_end t \<le> spans_end lo ts) ts"
proof (induction ts arbitrary: lo)
  case Nil
  then show ?case by simp
next
  case (Cons t ts)
  have tl: "spans_ordered (span_end t) ts"
    using Cons.prems by (simp add: span_end_def)
  from spans_end_ge [OF tl] Cons.IH [OF tl] show ?case
    by (simp add: span_end_def)
qed

lemma spans_ordered_lower:
  "spans_ordered lo ts \<Longrightarrow> j < length ts \<Longrightarrow> lo \<le> span_start (ts ! j)"
proof (induction ts arbitrary: lo j)
  case Nil
  then show ?case by simp
next
  case (Cons t ts)
  show ?case
  proof (cases j)
    case 0
    with Cons.prems show ?thesis by (simp add: span_start_def)
  next
    case (Suc k)
    with Cons.prems Cons.IH [of "span_end t" k] show ?thesis
      by (simp add: span_end_def)
  qed
qed

lemma spans_ordered_pairwise:
  "spans_ordered lo ts \<Longrightarrow> i < j \<Longrightarrow> j < length ts \<Longrightarrow> span_end (ts ! i) \<le> span_start (ts ! j)"
proof (induction ts arbitrary: lo i j)
  case Nil
  then show ?case by simp
next
  case (Cons t ts)
  obtain k where j: "j = Suc k" using Cons.prems(2) by (cases j) auto
  have tl: "spans_ordered (span_end t) ts"
    using Cons.prems(1) by (simp add: span_end_def)
  show ?case
  proof (cases i)
    case 0
    with j Cons.prems(3) spans_ordered_lower [OF tl, of k] show ?thesis by simp
  next
    case (Suc i')
    with j Cons.prems Cons.IH [OF tl, of i' k] show ?thesis by simp
  qed
qed

lemma spans_ordered_sorted: "spans_ordered lo ts \<Longrightarrow> sorted (map span_start ts)"
proof -
  assume so: "spans_ordered lo ts"
  have "span_start (ts ! i) \<le> span_start (ts ! j)" if "i < j" "j < length ts" for i j
  proof -
    have "span_start (ts ! i) \<le> span_end (ts ! i)"
      by (simp add: span_start_def span_end_def)
    with spans_ordered_pairwise [OF so that] show ?thesis by simp
  qed
  then show ?thesis
    by (simp add: sorted_iff_nth_mono_less)
qed

lemma spans_ordered_none_below:
  "spans_ordered lo ts \<Longrightarrow> p < lo \<Longrightarrow> filter (\<lambda>t. span_start t \<le> p \<and> p < span_end t) ts = []"
proof (induction ts arbitrary: lo)
  case Nil
  then show ?case by simp
next
  case (Cons t ts)
  from Cons.prems have "p < span_end t" "spans_ordered (span_end t) ts" "\<not> span_start t \<le> p"
    by (simp_all add: span_end_def span_start_def)
  with Cons.IH [of "span_end t"] show ?case by simp
qed

lemma spans_ordered_cover_once:
  "spans_ordered lo ts \<Longrightarrow> length (filter (\<lambda>t. span_start t \<le> p \<and> p < span_end t) ts) \<le> 1"
proof (induction ts arbitrary: lo)
  case Nil
  then show ?case by simp
next
  case (Cons t ts)
  have tl: "spans_ordered (span_end t) ts"
    using Cons.prems by (simp add: span_end_def)
  show ?case
  proof (cases "span_start t \<le> p \<and> p < span_end t")
    case True
    with spans_ordered_none_below [OF tl, of p] show ?thesis by simp
  next
    case False
    with Cons.IH [OF tl] show ?thesis by auto
  qed
qed

subsection \<open>The cursor stays inside the buffer\<close>

lemma takeWhile_within:
  "k \<le> length xs \<Longrightarrow> k + length (takeWhile P (drop k xs)) \<le> length xs"
  using length_takeWhile_le [of P "drop k xs"] by simp

lemma scan_LineBreak_within:
  assumes "it_ofs it < length (it_src it)"
  shows "within (snd (scan_LineBreak it c))"
  using assms
  by (auto simp: within_def scan_LineBreak_def Let_def next_it_def nextline_def)

lemma scan_Comment_within:
  assumes "it_ofs it < length (it_src it)"
  shows "within (snd (scan_Comment it))"
  using assms takeWhile_within [of "it_ofs it" "it_src it"]
  by (simp add: within_def scan_Comment_def scan_while_closed Let_def)

lemma scan_Identifier_within:
  assumes "it_ofs it < length (it_src it)"
    and "c = CharCode_Plus \<and> isSymbolChar h c2 \<longrightarrow> it_ofs it + 1 < length (it_src it)"
  shows "within (snd (scan_Identifier h it c c2 n))"
proof -
  have a: "Suc (it_ofs it + length (takeWhile (isSymbolChar h) (drop (Suc (it_ofs it)) (it_src it))))
      \<le> length (it_src it)"
    using assms(1) takeWhile_within [of "Suc (it_ofs it)" "it_src it"] by simp
  have b: "Suc (Suc (it_ofs it
        + length (takeWhile (isSymbolChar h) (drop (Suc (Suc (it_ofs it))) (it_src it)))))
      \<le> length (it_src it)" if "c = CharCode_Plus \<and> isSymbolChar h c2"
    using that assms(2) takeWhile_within [of "Suc (Suc (it_ofs it))" "it_src it"] by simp
  show ?thesis
    using a b
    by (simp add: within_def scan_Identifier_def scan_while_closed Let_def next_it_def)
qed

lemma scan_Macro_within:
  assumes "it_ofs it < length (it_src it)"
  shows "within (snd (scan_Macro h it))"
  using assms takeWhile_within [of "it_ofs it + 1" "it_src it"]
  by (simp add: within_def scan_Macro_def scan_while_closed Let_def next_it_def)

lemma scan_String_within:
  assumes "it_ofs it < length (it_src it)"
  shows "within (snd (scan_String it c))"
  using assms takeWhile_within [of "it_ofs it + 1" "it_src it"]
  by (simp add: within_def scan_String_def scan_while_closed Let_def next_it_def)

lemma scan_within:
  assumes "\<not> eof it" and "\<not> isSymbolChar h 0"
  shows "within (snd (scan h it n))"
proof -
  have lt: "it_ofs it < length (it_src it)"
    using assms(1) by (simp add: eof_def it_len_def)
  show ?thesis
    unfolding scan_def Let_def
    using lt assms(2)
    by (auto simp: scan_LineBreak_within scan_Comment_within scan_Identifier_within
        scan_Macro_within scan_String_within)
       (simp_all add: within_def next_it_def)
qed

subsection \<open>The invariant of the loop\<close>

lemma loop_inv_step:
  assumes "loop_inv src it ps" and "\<not> eof it"
  shows "\<exists>ps'. emit_all h ps (fst (scan h it (tokensPerLineCount ps))) = Some ps'
           \<and> loop_inv src (snd (scan h it (tokensPerLineCount ps))) ps'"
proof -
  let ?r = "scan h it (tokensPerLineCount ps)"
  let ?toks = "ast_tokens (ps_ast ps)"
  have ok: "step_ok it ?r" using assms(2) by (rule scan_ok)
  then have nf: "list_all (\<lambda>t. \<not> token_first t) (fst ?r)"
    by (simp add: step_ok_def list_all_iff)
  from assms(1) have li: "line_inv ps" and fl: "flags_ok ?toks"
    and so: "spans_ordered 0 ?toks" and se: "spans_end 0 ?toks \<le> it_ofs it"
    and od: "only_definitions (ps_ast ps)" and sr: "it_src it = src"
    by (simp_all add: loop_inv_def)
  obtain ps' where e: "emit_all h ps (fst ?r) = Some ps'" "line_inv ps'"
    "flags_ok (ast_tokens (ps_ast ps'))"
    "map token_range (ast_tokens (ps_ast ps')) = map token_range (?toks @ fst ?r)"
    using emit_all_inv [OF li fl nf, of h] by auto
  have o1: "spans_ordered (it_ofs it) (fst ?r)"
    and o2: "spans_end (it_ofs it) (fst ?r) \<le> it_ofs (snd ?r)"
    and adv: "it_ofs it < it_ofs (snd ?r)" and sr': "it_src (snd ?r) = src"
    using ok sr by (simp_all add: step_ok_def)
  have "spans_ordered 0 (?toks @ fst ?r)"
    using so se o1 by (simp add: spans_ordered_append spans_ordered_mono)
  moreover have "spans_end 0 (?toks @ fst ?r) \<le> it_ofs (snd ?r)"
  proof (cases "fst ?r = []")
    case True
    then show ?thesis using se adv by (simp add: spans_end_append)
  next
    case False
    then show ?thesis
      using o2 spans_end_nonempty [OF False, of "spans_end 0 ?toks" "it_ofs it"]
      by (simp add: spans_end_append)
  qed
  moreover have "only_definitions (ps_ast ps')"
    using emit_all_only_definitions [OF li od e(1)] .
  ultimately show ?thesis
    using e sr' spans_ordered_ranges [OF e(4)] spans_end_ranges [OF e(4)]
    by (auto simp: loop_inv_def)
qed

text \<open>A property that every iteration keeps holds when the loop ends, and the loop ends.\<close>

lemma parse_loop_rule:
  assumes "I it ps"
    and "\<And>it ps. I it ps \<Longrightarrow> \<not> eof it \<Longrightarrow>
      \<exists>ps'. emit_all h ps (fst (scan h it (tokensPerLineCount ps))) = Some ps'
            \<and> I (snd (scan h it (tokensPerLineCount ps))) ps'"
  shows "\<exists>it' ps'. parse_loop h it ps = Some ps' \<and> I it' ps'"
  using assms
proof (induction h it ps rule: parse_loop.induct)
  case (1 h it ps)
  show ?case
  proof (cases "eof it")
    case True
    then show ?thesis using 1(2) by (auto simp: parse_loop_eof)
  next
    case False
    let ?r = "scan h it (tokensPerLineCount ps)"
    obtain ps1 where e: "emit_all h ps (fst ?r) = Some ps1" "I (snd ?r) ps1"
      using 1(3) [OF 1(2) False] by blast
    have "\<exists>it' ps'. parse_loop h (snd ?r) ps1 = Some ps' \<and> I it' ps'"
      using 1(1) [OF False refl _ e(1) e(2)] 1(3) by simp
    then show ?thesis
      using False e(1) by (simp add: parse_loop_step)
  qed
qed

lemma loop_inv_init:
  "loop_inv src (new_ParserIterator src)
     \<lparr>ps_ast = new_AbstractSyntaxTree, tokensPerLineOfs = - 1, tokensPerLineCount = 0\<rparr>"
  by (simp add: loop_inv_def line_inv_def flags_ok_def line_count_def only_definitions_def
      new_AbstractSyntaxTree_def new_ParserIterator_def)

lemma parse_loop_inv:
  "\<exists>it' ps'. parse_loop h (new_ParserIterator src)
       \<lparr>ps_ast = new_AbstractSyntaxTree, tokensPerLineOfs = - 1, tokensPerLineCount = 0\<rparr>
     = Some ps' \<and> loop_inv src it' ps'"
  using loop_inv_init loop_inv_step by (rule parse_loop_rule)

lemma parse_loop_inv_within:
  assumes "\<not> isSymbolChar h 0"
  shows "\<exists>it' ps'. parse_loop h (new_ParserIterator src)
       \<lparr>ps_ast = new_AbstractSyntaxTree, tokensPerLineOfs = - 1, tokensPerLineCount = 0\<rparr>
     = Some ps' \<and> (loop_inv src it' ps' \<and> within it')"
proof (rule parse_loop_rule)
  show "loop_inv src (new_ParserIterator src)
     \<lparr>ps_ast = new_AbstractSyntaxTree, tokensPerLineOfs = - 1, tokensPerLineCount = 0\<rparr>
     \<and> within (new_ParserIterator src)"
    using loop_inv_init [of src] by (simp add: within_def new_ParserIterator_def)
next
  fix it ps
  assume "loop_inv src it ps \<and> within it" and "\<not> eof it"
  then show "\<exists>ps'. emit_all h ps (fst (scan h it (tokensPerLineCount ps))) = Some ps'
      \<and> (loop_inv src (snd (scan h it (tokensPerLineCount ps))) ps'
          \<and> within (snd (scan h it (tokensPerLineCount ps))))"
    using loop_inv_step [of src it ps h] scan_within [OF _ assms, of it "tokensPerLineCount ps"]
    by blast
qed

text \<open>The last call of \<^verbatim>\<open>lexer\<close>, lines 231 to 233, after the loop.\<close>

lemma flush_inv:
  assumes "loop_inv src it ps"
  shows "\<exists>ast. (if tokensPerLineCount ps > 0
               then lexer h (ps_ast ps) (tokensPerLineOfs ps) (tokensPerLineCount ps)
               else Some (ps_ast ps)) = Some ast
           \<and> ast_tokens ast = ast_tokens (ps_ast ps) \<and> only_definitions ast"
proof (cases "tokensPerLineCount ps > 0")
  case True
  from assms have li: "line_inv ps" and od: "only_definitions (ps_ast ps)"
    by (simp_all add: loop_inv_def)
  have "0 \<le> tokensPerLineOfs ps"
    using li True line_count_le [of "ast_tokens (ps_ast ps)"] by (simp add: line_inv_def)
  then obtain ast where
    l: "lexer h (ps_ast ps) (tokensPerLineOfs ps) (tokensPerLineCount ps) = Some ast"
    using lexer_total by blast
  have "only_definitions ast"
    using lexer_only_definitions [OF li True od _ _ l, of "[]"] by simp
  with True l lexer_tokens [OF l] show ?thesis by simp
next
  case False
  with assms show ?thesis by (simp add: loop_inv_def)
qed

lemma parse_inv:
  "\<exists>ast. parse h src = Some ast \<and> flags_ok (ast_tokens ast)
     \<and> spans_ordered 0 (ast_tokens ast) \<and> only_definitions ast"
proof -
  obtain it' ps' where p: "parse_loop h (new_ParserIterator src)
     \<lparr>ps_ast = new_AbstractSyntaxTree, tokensPerLineOfs = - 1, tokensPerLineCount = 0\<rparr> = Some ps'"
    "loop_inv src it' ps'"
    using parse_loop_inv by blast
  from flush_inv [OF p(2), of h] p show ?thesis
    by (auto simp: parse_def loop_inv_def)
qed

lemma parse_inv_within:
  assumes "\<not> isSymbolChar h 0"
  shows "\<exists>ast. parse h src = Some ast
     \<and> list_all (\<lambda>t. span_end t \<le> length src) (ast_tokens ast)"
proof -
  obtain it' ps' where p: "parse_loop h (new_ParserIterator src)
     \<lparr>ps_ast = new_AbstractSyntaxTree, tokensPerLineOfs = - 1, tokensPerLineCount = 0\<rparr> = Some ps'"
    "loop_inv src it' ps'" "within it'"
    using parse_loop_inv_within [OF assms] by blast
  let ?toks = "ast_tokens (ps_ast ps')"
  have "spans_ordered 0 ?toks" and "spans_end 0 ?toks \<le> length src"
    using p(2,3) by (simp_all add: loop_inv_def within_def)
  with spans_end_bound [of 0 ?toks] have "list_all (\<lambda>t. span_end t \<le> length src) ?toks"
    by (auto simp: list_all_iff)
  with flush_inv [OF p(2), of h] p(1) show ?thesis
    by (auto simp: parse_def)
qed

lemma parse_total: "\<exists>ast. parse h src = Some ast"
  using parse_inv [of h src] by blast

subsection \<open>Which characters lie in a span\<close>

lemma takeWhile_stop:
  assumes "k + length (takeWhile P (drop k xs)) < length xs"
  shows "\<not> P (xs ! (k + length (takeWhile P (drop k xs))))"
proof -
  have "length (takeWhile P (drop k xs)) < length (drop k xs)"
    using assms by simp
  from nth_length_takeWhile [OF this] assms show ?thesis by simp
qed

lemma scan_LineBreak_accounts:
  assumes "it_ofs it < length (it_src it)"
    and "it_src it ! it_ofs it = CharCode_CarriageReturn \<or> it_src it ! it_ofs it = CharCode_LineFeed"
  shows "step_accounts h it (scan_LineBreak it (it_src it ! it_ofs it))"
  using assms
  by (auto simp: step_accounts_def accounted_def covering_def left_out_def span_start_def
      span_end_def scan_LineBreak_def Let_def next_it_def nextline_def new_Token_def new_Range_def
      inc_def less_Suc_eq)

lemma scan_Comment_accounts: "step_accounts h it (scan_Comment it)"
  by (auto simp: step_accounts_def accounted_def covering_def span_start_def
      span_end_def scan_Comment_def scan_while_closed Let_def new_Token_def new_Range_def)

lemma scan_Macro_accounts: "step_accounts h it (scan_Macro h it)"
  by (auto simp: step_accounts_def accounted_def covering_def span_start_def
      span_end_def scan_Macro_def scan_while_closed Let_def new_Token_def new_Range_def
      next_it_def inc_def)

lemma scan_Identifier_accounts:
  assumes "c = it_src it ! it_ofs it"
  shows "step_accounts h it (scan_Identifier h it c c2 n)"
  using assms
  by (auto simp: step_accounts_def accounted_def covering_def left_out_def span_start_def
      span_end_def scan_Identifier_def scan_while_closed Let_def new_Token_def new_Range_def
      next_it_def inc_def le_less Suc_le_eq)

lemma scan_String_accounts:
  assumes "it_ofs it < length (it_src it)" and "c = it_src it ! it_ofs it"
    and "c = CharCode_SingleQuote \<or> c = CharCode_DoubleQuote"
  shows "step_accounts h it (scan_String it c)"
proof -
  let ?n = "length (takeWhile (\<lambda>x. x \<noteq> c) (drop (Suc (it_ofs it)) (it_src it)))"
  have stop: "it_src it ! (Suc (it_ofs it) + ?n) = c" if "Suc (it_ofs it) + ?n < length (it_src it)"
    using takeWhile_stop [OF that] by simp
  have "accounted h (it_src it) (fst (scan_String it c)) p"
    if p: "it_ofs it \<le> p" "p < it_ofs (snd (scan_String it c))" "p < length (it_src it)" for p
  proof -
    have o': "it_ofs (snd (scan_String it c))
        = (if Suc (it_ofs it) + ?n < length (it_src it) then Suc (Suc (it_ofs it) + ?n)
           else Suc (it_ofs it) + ?n)"
      by (simp add: scan_String_def scan_while_closed Let_def next_it_def)
    have "p = it_ofs it \<or> (Suc (it_ofs it) \<le> p \<and> p < Suc (it_ofs it) + ?n)
      \<or> (p = Suc (it_ofs it) + ?n \<and> Suc (it_ofs it) + ?n < length (it_src it))"
      using p unfolding o' by (cases "Suc (it_ofs it) + ?n < length (it_src it)") auto
    then consider "p = it_ofs it" | "Suc (it_ofs it) \<le> p" "p < Suc (it_ofs it) + ?n"
      | "p = Suc (it_ofs it) + ?n" "Suc (it_ofs it) + ?n < length (it_src it)"
      by blast
    then show ?thesis
    proof cases
      case 1
      with assms show ?thesis
        by (auto simp: accounted_def covering_def left_out_def span_start_def span_end_def
            scan_String_def scan_while_closed Let_def next_it_def new_Token_def new_Range_def)
    next
      case 2
      then show ?thesis
        by (auto simp: accounted_def covering_def span_start_def span_end_def
            scan_String_def scan_while_closed Let_def next_it_def new_Token_def new_Range_def)
    next
      case 3
      with stop assms(3) show ?thesis
        by (auto simp: accounted_def covering_def left_out_def span_start_def span_end_def
            scan_String_def scan_while_closed Let_def next_it_def new_Token_def new_Range_def)
    qed
  qed
  then show ?thesis by (simp add: step_accounts_def)
qed

lemma scan_accounts:
  assumes "\<not> eof it"
  shows "step_accounts h it (scan h it n)"
proof -
  define c where "c = it_src it ! it_ofs it"
  define c2 where
    "c2 = (if it_ofs it + 1 < length (it_src it) then it_src it ! (it_ofs it + 1) else 0)"
  have lt: "it_ofs it < length (it_src it)" and pk: "peek it = c"
    using assms by (simp_all add: eof_def it_len_def peek_def c_def)
  have sc: "scan h it n =
     (if c = CharCode_CarriageReturn \<or> c = CharCode_LineFeed then scan_LineBreak it c
      else if c = CharCode_Semicolon then scan_Comment it
      else if c = CharCode_Plus \<and> c2 = CharCode_Plus then ([], next_it (next_it it))
      else if c = CharCode_Period \<or> c = CharCode_Underscore \<or> isAlpha h c
              \<or> (c = CharCode_Plus \<and> isSymbolChar h c2)
        then scan_Identifier h it c c2 n
      else if c = CharCode_Exclamation then scan_Macro h it
      else if c = CharCode_SingleQuote \<or> c = CharCode_DoubleQuote then scan_String it c
      else ([], next_it it))"
    unfolding scan_def Let_def pk c2_def by (rule refl)
  show ?thesis
  proof (cases "c = CharCode_CarriageReturn \<or> c = CharCode_LineFeed")
    case True
    with scan_LineBreak_accounts [OF lt, of h] show ?thesis
      by (simp add: sc c_def)
  next
    case nlb: False
    show ?thesis
    proof (cases "c = CharCode_Semicolon")
      case True
      with nlb scan_Comment_accounts [of h it] show ?thesis by (simp add: sc)
    next
      case nsc: False
      show ?thesis
      proof (cases "c = CharCode_Plus \<and> c2 = CharCode_Plus")
        case True
        have "accounted h (it_src it) [] p"
          if "it_ofs it \<le> p" "p < it_ofs it + 2" "p < length (it_src it)" for p
        proof -
          from that have "p = it_ofs it \<or> p = it_ofs it + 1" by arith
          with True that(3) have "it_src it ! p = CharCode_Plus"
            by (auto simp: c_def c2_def split: if_splits)
          then show ?thesis by (simp add: accounted_def covering_def left_out_def)
        qed
        with True nlb nsc show ?thesis by (simp add: sc step_accounts_def next_it_def)
      next
        case npp: False
        show ?thesis
        proof (cases "c = CharCode_Period \<or> c = CharCode_Underscore \<or> isAlpha h c
            \<or> (c = CharCode_Plus \<and> isSymbolChar h c2)")
          case True
          with nlb nsc npp scan_Identifier_accounts [OF c_def, of h c2 n] show ?thesis
            by (auto simp: sc)
        next
          case nid: False
          show ?thesis
          proof (cases "c = CharCode_Exclamation")
            case True
            with nlb nsc npp nid scan_Macro_accounts [of h it] show ?thesis
              by (auto simp: sc)
          next
            case nex: False
            show ?thesis
            proof (cases "c = CharCode_SingleQuote \<or> c = CharCode_DoubleQuote")
              case True
              with nlb nsc npp nid nex scan_String_accounts [OF lt c_def True, of h]
              show ?thesis by (auto simp: sc)
            next
              case False
              have "\<not> starts_token h (it_src it ! it_ofs it)"
                using nsc nid nex by (simp add: starts_token_def c_def)
              then have "step_accounts h it ([], next_it it)"
                by (auto simp: step_accounts_def next_it_def accounted_def covering_def
                    left_out_def less_Suc_eq)
              with False nlb nsc npp nid nex show ?thesis by (auto simp: sc)
            qed
          qed
        qed
      qed
    qed
  qed
qed

lemma covering_append: "covering p (xs @ ys) = covering p xs @ covering p ys"
  by (simp add: covering_def)

lemma covering_length_ranges:
  assumes "map token_range xs = map token_range ys"
  shows "length (covering p xs) = length (covering p ys)"
proof -
  have eq: "length (covering p ts)
      = length (filter (\<lambda>r. range_offset r \<le> p \<and> p < range_offset r + range_length r)
          (map token_range ts))" for ts
    by (simp add: covering_def span_start_def span_end_def filter_map o_def)
  show ?thesis unfolding eq assms by (rule refl)
qed

lemma accounted_ranges:
  assumes "map token_range xs = map token_range ys"
  shows "accounted h src xs p = accounted h src ys p"
  using covering_length_ranges [OF assms, of p] by (metis accounted_def length_0_conv)

lemma covering_below: "spans_ordered lo ts \<Longrightarrow> p < lo \<Longrightarrow> covering p ts = []"
  unfolding covering_def by (rule spans_ordered_none_below)

lemma covering_above:
  assumes "spans_ordered lo ts" and "spans_end lo ts \<le> p"
  shows "covering p ts = []"
proof -
  have "list_all (\<lambda>t. span_end t \<le> p) ts"
    using spans_end_bound [OF assms(1)] assms(2) by (auto simp: list_all_iff)
  then show ?thesis
    by (auto simp: covering_def filter_empty_conv list_all_iff)
qed

lemma parse_loop_rule_eof:
  assumes "I it ps"
    and "\<And>it ps. I it ps \<Longrightarrow> \<not> eof it \<Longrightarrow>
      \<exists>ps'. emit_all h ps (fst (scan h it (tokensPerLineCount ps))) = Some ps'
            \<and> I (snd (scan h it (tokensPerLineCount ps))) ps'"
  shows "\<exists>it' ps'. parse_loop h it ps = Some ps' \<and> I it' ps' \<and> eof it'"
  using assms
proof (induction h it ps rule: parse_loop.induct)
  case (1 h it ps)
  show ?case
  proof (cases "eof it")
    case True
    then show ?thesis using 1(2) by (auto simp: parse_loop_eof)
  next
    case False
    let ?r = "scan h it (tokensPerLineCount ps)"
    obtain ps1 where e: "emit_all h ps (fst ?r) = Some ps1" "I (snd ?r) ps1"
      using 1(3) [OF 1(2) False] by blast
    have "\<exists>it' ps'. parse_loop h (snd ?r) ps1 = Some ps' \<and> I it' ps' \<and> eof it'"
      using 1(1) [OF False refl _ e(1) e(2)] 1(3) by simp
    then show ?thesis
      using False e(1) by (simp add: parse_loop_step)
  qed
qed

lemma accounts_step:
  assumes "loop_inv src it ps" and "accounts_upto h src it ps" and "\<not> eof it"
  shows "\<exists>ps'. emit_all h ps (fst (scan h it (tokensPerLineCount ps))) = Some ps'
           \<and> (loop_inv src (snd (scan h it (tokensPerLineCount ps))) ps'
                \<and> accounts_upto h src (snd (scan h it (tokensPerLineCount ps))) ps')"
proof -
  let ?r = "scan h it (tokensPerLineCount ps)"
  let ?toks = "ast_tokens (ps_ast ps)"
  have ok: "step_ok it ?r" using assms(3) by (rule scan_ok)
  then have nf: "list_all (\<lambda>t. \<not> token_first t) (fst ?r)"
    and o1: "spans_ordered (it_ofs it) (fst ?r)"
    by (simp_all add: step_ok_def list_all_iff)
  from assms(1) have li: "line_inv ps" and fl: "flags_ok ?toks"
    and so: "spans_ordered 0 ?toks" and se: "spans_end 0 ?toks \<le> it_ofs it"
    and sr: "it_src it = src"
    by (simp_all add: loop_inv_def)
  obtain ps' where e: "emit_all h ps (fst ?r) = Some ps'"
    and inv: "loop_inv src (snd ?r) ps'"
    using loop_inv_step [OF assms(1,3), of h] by blast
  have rg: "map token_range (ast_tokens (ps_ast ps')) = map token_range (?toks @ fst ?r)"
    using emit_all_inv [OF li fl nf, of h] e by auto
  have "accounted h src (ast_tokens (ps_ast ps')) p" if p: "p < it_ofs (snd ?r)" "p < length src" for p
  proof (cases "p < it_ofs it")
    case True
    then have "covering p (fst ?r) = []" using o1 by (rule covering_below [rotated])
    moreover have "accounted h src ?toks p"
      using assms(2) True p(2) by (simp add: accounts_upto_def)
    ultimately have "accounted h src (?toks @ fst ?r) p"
      by (simp add: accounted_def covering_append)
    then show ?thesis by (simp add: accounted_ranges [OF rg])
  next
    case False
    then have "covering p ?toks = []"
      using covering_above [OF so, of p] se by simp
    moreover have "accounted h src (fst ?r) p"
      using scan_accounts [OF assms(3), of h "tokensPerLineCount ps"] False p sr
      by (simp add: step_accounts_def)
    ultimately have "accounted h src (?toks @ fst ?r) p"
      by (simp add: accounted_def covering_append)
    then show ?thesis by (simp add: accounted_ranges [OF rg])
  qed
  with e inv show ?thesis by (auto simp: accounts_upto_def)
qed

lemma parse_accounts_for_characters:
  "\<exists>ast. parse h src = Some ast
     \<and> list_all (\<lambda>p. accounted h src (ast_tokens ast) p) [0 ..< length src]"
proof -
  let ?I = "\<lambda>it ps. loop_inv src it ps \<and> accounts_upto h src it ps"
  have "?I (new_ParserIterator src)
     \<lparr>ps_ast = new_AbstractSyntaxTree, tokensPerLineOfs = - 1, tokensPerLineCount = 0\<rparr>"
    using loop_inv_init [of src] by (simp add: accounts_upto_def new_ParserIterator_def)
  then have "\<exists>it' ps'. parse_loop h (new_ParserIterator src)
       \<lparr>ps_ast = new_AbstractSyntaxTree, tokensPerLineOfs = - 1, tokensPerLineCount = 0\<rparr>
     = Some ps' \<and> ?I it' ps' \<and> eof it'"
    by (rule parse_loop_rule_eof) (use accounts_step in blast)
  then obtain it' ps' where p: "parse_loop h (new_ParserIterator src)
       \<lparr>ps_ast = new_AbstractSyntaxTree, tokensPerLineOfs = - 1, tokensPerLineCount = 0\<rparr>
     = Some ps'" "loop_inv src it' ps'" "accounts_upto h src it' ps'" "eof it'"
    by blast
  from p(2,4) have "length src \<le> it_ofs it'"
    by (simp add: loop_inv_def eof_def it_len_def)
  with p(3) have "list_all (\<lambda>p. accounted h src (ast_tokens (ps_ast ps')) p) [0 ..< length src]"
    by (simp add: accounts_upto_def list_all_iff)
  with flush_inv [OF p(2), of h] p(1) show ?thesis
    by (auto simp: parse_def)
qed

section \<open>The claims\<close>

subsection \<open>The directive search\<close>

lemma startsWith_prefix: "startsWith t q = prefix q t"
  unfolding startsWith_def
  by (metis append_eq_conv_conj prefix_def append_take_drop_id)

lemma fuzzyItems_filter:
  "fuzzyItems query items =
     filter (\<lambda>t. prefix query t) (map (\<lambda>item. CharCode_Exclamation # codes item) items)"
  by (induction items) (simp_all add: startsWith_prefix Let_def)

lemma fuzzySearch_al:
  "fuzzySearch (codes ''!al'') = Some [codes ''!align'', codes ''!al'']"
  by (simp add: fuzzySearch_def charCodeAt_def codes_def pseudoOpcodes_def startsWith_def Let_def)

text \<open>
  C7: \<^verbatim>\<open>fuzzySearch\<close> answers "no match" for the empty query and for a query that
  does not start with \<^verbatim>\<open>!\<close>. For a query that starts with \<^verbatim>\<open>!\<close> it answers the
  directive names, each with \<^verbatim>\<open>!\<close> in front and in the order of the vocabulary, of
  which the query is a prefix, or "no match" when there is none. The query \<^verbatim>\<open>!al\<close>
  gives \<^verbatim>\<open>!align\<close> and \<^verbatim>\<open>!al\<close>.
\<close>

theorem fuzzySearch_prefix_matches:
  "fuzzySearch query =
     (if query = [] \<or> hd query \<noteq> CharCode_Exclamation then None
      else
        let matches = filter (\<lambda>t. prefix query t)
                        (map (\<lambda>item. CharCode_Exclamation # codes item) pseudoOpcodes)
        in if matches = [] then None else Some matches)
   \<and> fuzzySearch (codes ''!al'') = Some [codes ''!align'', codes ''!al'']
   \<and> fuzzySearch (codes ''al'') = None
   \<and> fuzzySearch [] = None"
proof -
  have "fuzzySearch query =
     (if query = [] \<or> hd query \<noteq> CharCode_Exclamation then None
      else
        let matches = filter (\<lambda>t. prefix query t)
                        (map (\<lambda>item. CharCode_Exclamation # codes item) pseudoOpcodes)
        in if matches = [] then None else Some matches)"
    by (cases query) (simp_all add: fuzzySearch_def charCodeAt_def fuzzyItems_filter Let_def)
  moreover have "fuzzySearch (codes ''al'') = None"
    by (simp add: fuzzySearch_def charCodeAt_def codes_def)
  moreover have "fuzzySearch [] = None"
    by (simp add: fuzzySearch_def)
  ultimately show ?thesis
    using fuzzySearch_al by simp
qed

subsection \<open>Line breaks and comment lines\<close>

text \<open>
  C3, on the code: the input CR LF gives one LineBreak token, and so does the input LF.
  The span of the first has length one and the span of the second has length zero:
  the branch grows the span for the CR it absorbs and not for the character that
  \<^verbatim>\<open>nextline\<close> consumes.
\<close>

theorem parse_line_break_spans:
  "map_option token_spans (parse h [CharCode_CarriageReturn, CharCode_LineFeed])
     = Some [(TokenType_LineBreak, 0, 1)]
   \<and> map_option token_spans (parse h [CharCode_LineFeed]) = Some [(TokenType_LineBreak, 0, 0)]"
  by (simp add: parse_eval token_spans_def)

text \<open>
  C1, on the code: the input \<^verbatim>\<open>; comment only\<close> with its line feed gives a Comment
  token and a LineBreak token, and no statement at all. A Comment token is never
  counted into a line, so that \<^verbatim>\<open>parse\<close> never hands a line that starts with one
  to \<^verbatim>\<open>lexer\<close>: on every input, all the statements that \<^verbatim>\<open>parse\<close> leaves are
  Definition statements.
\<close>

theorem parse_comment_only:
  "map_option (\<lambda>ast. (token_spans ast, ast_statements ast, ast_definitions ast))
     (parse h (codes ''; comment only'' @ [CharCode_LineFeed]))
   = Some ([(TokenType_Comment, 0, 14), (TokenType_LineBreak, 14, 0)], [], [])
   \<and> (\<exists>ast. parse h src = Some ast \<and> only_definitions ast)"
proof -
  have "map_option (\<lambda>ast. (token_spans ast, ast_statements ast, ast_definitions ast))
     (parse h (codes ''; comment only'' @ [CharCode_LineFeed]))
   = Some ([(TokenType_Comment, 0, 14), (TokenType_LineBreak, 14, 0)], [], [])"
    by (simp add: parse_eval token_spans_def)
  then show ?thesis
    using parse_inv [of h src] by blast
qed

subsection \<open>The spans of the token stream\<close>

text \<open>
  For every input, \<^verbatim>\<open>parse\<close> returns, and in the token stream it leaves every
  span starts at or after the end of each span before it: the spans do not overlap,
  their start offsets are in non-decreasing order, and every position lies in the span
  of at most one token. Where \<^verbatim>\<open>isSymbolChar\<close> rejects the code 0, which the
  scanner reads past the end of the input, every span ends inside the input.
\<close>

lemma parse_spans_disjoint_ordered:
  "\<exists>ast. parse h src = Some ast
     \<and> spans_ordered 0 (ast_tokens ast)
     \<and> (\<forall>i j. i < j \<and> j < length (ast_tokens ast)
           \<longrightarrow> span_end (ast_tokens ast ! i) \<le> span_start (ast_tokens ast ! j))
     \<and> sorted (map span_start (ast_tokens ast))
     \<and> (\<forall>p < length src.
           length (filter (\<lambda>t. span_start t \<le> p \<and> p < span_end t) (ast_tokens ast)) \<le> 1)
     \<and> (\<not> isSymbolChar h 0 \<longrightarrow>
           list_all (\<lambda>t. span_end t \<le> length src) (ast_tokens ast))"
proof -
  obtain ast where a: "parse h src = Some ast" "spans_ordered 0 (ast_tokens ast)"
    using parse_inv [of h src] by blast
  have "list_all (\<lambda>t. span_end t \<le> length src) (ast_tokens ast)" if "\<not> isSymbolChar h 0"
    using parse_inv_within [OF that, of src] a(1) by auto
  then show ?thesis
    using a spans_ordered_pairwise [OF a(2)] spans_ordered_sorted [OF a(2)]
      spans_ordered_cover_once [OF a(2)]
    by blast
qed

text \<open>
  C8, on the code: the spans do not overlap and are in order (above), and every
  character of the input is accounted for in the sense of \<open>accounted\<close>
  (\<open>parse_accounts_for_characters\<close>). But the character that ends a line break is
  consumed by the rule that emits the LineBreak token and lies in no span: on the input
  LF the one iteration emits a LineBreak token with an empty span and moves the cursor
  by one, so that no token holds position 0; on the input CR LF the token holds
  position 0 and no token holds position 1.
\<close>

theorem line_break_character_in_no_span:
  "fst (scan h (new_ParserIterator [CharCode_LineFeed]) n)
     = [new_Token TokenType_LineBreak [CharCode_LineFeed] (new_Range 0 0 0)]
   \<and> it_ofs (snd (scan h (new_ParserIterator [CharCode_LineFeed]) n)) = 1
   \<and> map_option (\<lambda>ast. covering 0 (ast_tokens ast)) (parse h [CharCode_LineFeed]) = Some []
   \<and> map_option (\<lambda>ast. covering 1 (ast_tokens ast))
        (parse h [CharCode_CarriageReturn, CharCode_LineFeed]) = Some []
   \<and> map_option (\<lambda>ast. map token_type (covering 0 (ast_tokens ast)))
        (parse h [CharCode_CarriageReturn, CharCode_LineFeed]) = Some [TokenType_LineBreak]"
  by (simp add: parse_eval covering_def span_start_def span_end_def)

subsection \<open>Termination\<close>

lemma bounded_enough:
  "it_len it - it_ofs it \<le> k \<Longrightarrow> parse_loop_bounded k h it ps = Some (parse_loop h it ps)"
proof (induction k arbitrary: it ps)
  case 0
  then have "eof it" by (simp add: eof_def)
  then show ?case by (simp add: parse_loop_eof)
next
  case (Suc k)
  show ?case
  proof (cases "eof it")
    case True
    then show ?thesis by (simp add: parse_loop_eof)
  next
    case False
    let ?r = "scan h it (tokensPerLineCount ps)"
    have "step_ok it ?r" using False by (rule scan_ok)
    with Suc.prems False have "it_len (snd ?r) - it_ofs (snd ?r) \<le> k"
      by (auto simp: step_ok_def it_len_def eof_def)
    from Suc.IH [OF this] False show ?thesis
      by (simp add: parse_loop_step split_beta split: option.splits)
  qed
qed

text \<open>
  C9: every iteration of the loop moves the cursor forward by at least one character;
  the loop bounded by as many iterations as the input has characters ends with the
  result of the loop; and \<^verbatim>\<open>parse\<close> returns on every input.
\<close>

theorem parse_terminates:
  "(\<not> eof it \<longrightarrow> it_ofs it < it_ofs (snd (scan h it n)))
   \<and> parse_loop_bounded (length src) h (new_ParserIterator src) ps
       = Some (parse_loop h (new_ParserIterator src) ps)
   \<and> (\<exists>ast. parse h src = Some ast)"
proof -
  have "\<not> eof it \<longrightarrow> it_ofs it < it_ofs (snd (scan h it n))"
    using scan_ok [of it h n] by (simp add: step_ok_def)
  moreover have "parse_loop_bounded (length src) h (new_ParserIterator src) ps
       = Some (parse_loop h (new_ParserIterator src) ps)"
    by (rule bounded_enough) (simp add: it_len_def new_ParserIterator_def)
  moreover have "\<exists>ast. parse h src = Some ast"
    using parse_inv [of h src] by blast
  ultimately show ?thesis by blast
qed

theorem parse_terminates_witness:
  "\<not> eof (new_ParserIterator (codes ''lda''))
   \<and> it_ofs (new_ParserIterator (codes ''lda''))
       < it_ofs (snd (scan (spec_helpers []) (new_ParserIterator (codes ''lda'')) 0))
   \<and> parse_loop_bounded 3 (spec_helpers []) (new_ParserIterator (codes ''lda''))
        \<lparr>ps_ast = new_AbstractSyntaxTree, tokensPerLineOfs = - 1, tokensPerLineCount = 0\<rparr>
      = Some (parse_loop (spec_helpers []) (new_ParserIterator (codes ''lda''))
        \<lparr>ps_ast = new_AbstractSyntaxTree, tokensPerLineOfs = - 1, tokensPerLineCount = 0\<rparr>)"
proof -
  have ne: "\<not> eof (new_ParserIterator (codes ''lda''))"
    by (simp add: eof_def it_len_def new_ParserIterator_def codes_def)
  have len: "length (codes ''lda'') = 3"
    by (simp add: codes_def)
  show ?thesis
    using ne len
      parse_terminates [of "new_ParserIterator (codes ''lda'')" "spec_helpers []" 0 "codes ''lda''"
        "\<lparr>ps_ast = new_AbstractSyntaxTree, tokensPerLineOfs = - 1, tokensPerLineCount = 0\<rparr>"]
    by simp
qed

subsection \<open>The first-on-line flag\<close>

lemma line_count_zero_iff: "(line_count ts = 0) = (ts = [] \<or> terminates_line (last ts))"
  by (cases ts rule: rev_cases) (simp_all add: line_count_snoc, simp add: line_count_def)

lemma line_count_take_zero_iff:
  "i < length ts \<Longrightarrow> (line_count (take i ts) = 0) = (i = 0 \<or> terminates_line (ts ! (i - 1)))"
proof (cases i)
  case 0
  then show ?thesis by (simp add: line_count_def)
next
  case (Suc k)
  assume "i < length ts"
  with Suc have "take i ts = take k ts @ [ts ! k]"
    by (simp add: take_Suc_conv_app_nth)
  with Suc show ?thesis by (simp add: line_count_snoc)
qed

lemma emit_tokens:
  assumes "emit h ps t = Some ps'" and "\<not> token_first t"
  shows "ast_tokens (ps_ast ps')
           = ast_tokens (ps_ast ps) @ [t\<lparr>token_first := (tokensPerLineCount ps = 0)\<rparr>]"
proof -
  have t: "(if tokensPerLineCount ps = 0 then setFirstFlag t else t)
      = t\<lparr>token_first := (tokensPerLineCount ps = 0)\<rparr>"
    using assms(2) by (simp add: setFirstFlag_def)
  show ?thesis
    using assms(1) unfolding emit_def Let_def t
    by (auto simp: addToken_def split: if_splits option.splits dest: lexer_tokens)
qed

text \<open>
  C10: a token gets the first-on-line flag exactly when \<^verbatim>\<open>tokensPerLineCount\<close> is
  zero as it is emitted. In the stream that \<^verbatim>\<open>parse\<close> leaves, a token has the flag
  exactly when no counted token stands between it and the last line end before it,
  that is when it is the first token of all or follows a LineBreak or a Comment token;
  this holds for a LineBreak and a Comment token too, which end the line and are never
  counted into it.
\<close>

theorem first_flag_iff_count_zero:
  "(emit h ps t = Some ps' \<and> \<not> token_first t \<longrightarrow>
      ast_tokens (ps_ast ps')
        = ast_tokens (ps_ast ps) @ [t\<lparr>token_first := (tokensPerLineCount ps = 0)\<rparr>])
   \<and> (\<exists>ast. parse h src = Some ast
        \<and> (\<forall>i < length (ast_tokens ast).
              token_first (ast_tokens ast ! i) = (line_count (take i (ast_tokens ast)) = 0)
              \<and> token_first (ast_tokens ast ! i)
                  = (i = 0 \<or> terminates_line (ast_tokens ast ! (i - 1)))))"
proof -
  obtain ast where a: "parse h src = Some ast" "flags_ok (ast_tokens ast)"
    using parse_inv [of h src] by blast
  have "token_first (ast_tokens ast ! i) = (line_count (take i (ast_tokens ast)) = 0)
        \<and> token_first (ast_tokens ast ! i) = (i = 0 \<or> terminates_line (ast_tokens ast ! (i - 1)))"
    if "i < length (ast_tokens ast)" for i
    using a(2) that line_count_take_zero_iff [OF that] by (simp add: flags_ok_def)
  with a(1) emit_tokens [of h ps t ps'] show ?thesis by blast
qed

theorem first_flag_iff_count_zero_witness:
  "emit (spec_helpers [])
      \<lparr>ps_ast = new_AbstractSyntaxTree, tokensPerLineOfs = - 1, tokensPerLineCount = 0\<rparr>
      (new_Token TokenType_LineBreak [CharCode_LineFeed] (new_Range 0 0 0))
     = Some \<lparr>ps_ast = addToken new_AbstractSyntaxTree
               (setFirstFlag (new_Token TokenType_LineBreak [CharCode_LineFeed] (new_Range 0 0 0))),
            tokensPerLineOfs = - 1, tokensPerLineCount = 0\<rparr>
   \<and> \<not> token_first (new_Token TokenType_LineBreak [CharCode_LineFeed] (new_Range 0 0 0))
   \<and> (\<exists>ast. parse (spec_helpers []) (codes ''a'' @ [CharCode_LineFeed, CharCode_LineFeed] @ codes '';c'')
              = Some ast
        \<and> map (\<lambda>t. (token_type t, token_first t)) (ast_tokens ast)
            = [(TokenType_Identifier, True), (TokenType_LineBreak, False),
               (TokenType_LineBreak, True), (TokenType_Comment, True)]
        \<and> 2 < length (ast_tokens ast)
        \<and> token_first (ast_tokens ast ! 2) = (line_count (take 2 (ast_tokens ast)) = 0))"
proof -
  let ?src = "codes ''a'' @ [CharCode_LineFeed, CharCode_LineFeed] @ codes '';c''"
  let ?ps = "\<lparr>ps_ast = new_AbstractSyntaxTree, tokensPerLineOfs = - 1, tokensPerLineCount = 0\<rparr>"
  let ?t = "new_Token TokenType_LineBreak [CharCode_LineFeed] (new_Range 0 0 0)"
  have e: "emit (spec_helpers []) ?ps ?t
     = Some \<lparr>ps_ast = addToken new_AbstractSyntaxTree (setFirstFlag ?t),
            tokensPerLineOfs = - 1, tokensPerLineCount = 0\<rparr>"
    by (simp add: emit_def Let_def new_Token_def setFirstFlag_def)
  have nf: "\<not> token_first ?t" by (simp add: new_Token_def)
  obtain ast where a: "parse (spec_helpers []) ?src = Some ast"
    and f: "\<forall>i < length (ast_tokens ast).
              token_first (ast_tokens ast ! i) = (line_count (take i (ast_tokens ast)) = 0)"
    using first_flag_iff_count_zero [of "spec_helpers []" ?ps ?t _ ?src] by blast
  have "map_option (\<lambda>ast. map (\<lambda>t. (token_type t, token_first t)) (ast_tokens ast))
          (parse (spec_helpers []) ?src)
      = Some [(TokenType_Identifier, True), (TokenType_LineBreak, False),
               (TokenType_LineBreak, True), (TokenType_Comment, True)]"
    by (simp add: parse_eval spec_eval)
  with a have m: "map (\<lambda>t. (token_type t, token_first t)) (ast_tokens ast)
      = [(TokenType_Identifier, True), (TokenType_LineBreak, False),
               (TokenType_LineBreak, True), (TokenType_Comment, True)]"
    by simp
  then have len: "length (ast_tokens ast) = 4"
    by (auto dest: arg_cong [where f = length])
  with f have "token_first (ast_tokens ast ! 2) = (line_count (take 2 (ast_tokens ast)) = 0)"
    by simp
  with e nf a m len show ?thesis by simp
qed

subsection \<open>Strings without a closing quote\<close>

lemma scan_String_unterminated:
  assumes "it_ofs it < length (it_src it)"
    and "q \<notin> set (drop (Suc (it_ofs it)) (it_src it))"
  shows "scan_String it q =
     ([new_Token TokenType_String (it_src it)
         \<lparr>range_offset = it_ofs it + 1, range_row = it_row it, range_col = it_col it + 1,
          range_length = length (it_src it) - (it_ofs it + 1)\<rparr>],
      it\<lparr>it_ofs := length (it_src it), it_col := it_col it + (length (it_src it) - it_ofs it)\<rparr>)"
proof -
  have tw: "takeWhile (\<lambda>x. x \<noteq> q) (drop (Suc (it_ofs it)) (it_src it))
      = drop (Suc (it_ofs it)) (it_src it)"
    using assms(2) by (auto simp: takeWhile_eq_all_conv)
  show ?thesis
    using assms(1)
    by (simp add: scan_String_def scan_while_closed Let_def next_it_def new_Range_def tw)
qed

text \<open>
  C6: where the cursor stands on a quote (that \<^verbatim>\<open>isAlpha\<close> does not take for a
  letter) and the same quote does not occur again before the end of the input, the
  iteration emits one String token, whose span starts after the quote and runs to the
  end of the input; the cursor is then at the end, and the loop returns with that one
  token added to the stream. The input \<^verbatim>\<open>'hello\<close> gives one String token, of the
  five characters after the quote. \<^verbatim>\<open>parse\<close> returns a tree on every input.
\<close>

theorem unterminated_string_one_token:
  "(it_ofs it < length (it_src it) \<and> it_src it ! it_ofs it = q
      \<and> (q = CharCode_SingleQuote \<or> q = CharCode_DoubleQuote) \<and> \<not> isAlpha h q
      \<and> q \<notin> set (drop (Suc (it_ofs it)) (it_src it))
    \<longrightarrow> fst (scan h it n) =
          [new_Token TokenType_String (it_src it)
             \<lparr>range_offset = it_ofs it + 1, range_row = it_row it, range_col = it_col it + 1,
              range_length = length (it_src it) - (it_ofs it + 1)\<rparr>]
        \<and> eof (snd (scan h it n))
        \<and> (\<exists>ps'. parse_loop h it ps = Some ps'
              \<and> ast_tokens (ps_ast ps') = ast_tokens (ps_ast ps) @
                  [\<lparr>token_type = TokenType_String, token_src = it_src it,
                    token_range =
                      \<lparr>range_offset = it_ofs it + 1, range_row = it_row it,
                       range_col = it_col it + 1,
                       range_length = length (it_src it) - (it_ofs it + 1)\<rparr>,
                    token_first = (tokensPerLineCount ps = 0)\<rparr>]))
   \<and> (\<not> isAlpha h CharCode_SingleQuote \<longrightarrow>
        map_option token_spans (parse h (CharCode_SingleQuote # codes ''hello''))
          = Some [(TokenType_String, 1, 5)])
   \<and> (\<exists>ast. parse h src = Some ast)"
proof -
  have general: "fst (scan h it n) =
          [new_Token TokenType_String (it_src it)
             \<lparr>range_offset = it_ofs it + 1, range_row = it_row it, range_col = it_col it + 1,
              range_length = length (it_src it) - (it_ofs it + 1)\<rparr>]
        \<and> eof (snd (scan h it n))
        \<and> (\<exists>ps'. parse_loop h it ps = Some ps'
              \<and> ast_tokens (ps_ast ps') = ast_tokens (ps_ast ps) @
                  [\<lparr>token_type = TokenType_String, token_src = it_src it,
                    token_range =
                      \<lparr>range_offset = it_ofs it + 1, range_row = it_row it,
                       range_col = it_col it + 1,
                       range_length = length (it_src it) - (it_ofs it + 1)\<rparr>,
                    token_first = (tokensPerLineCount ps = 0)\<rparr>])"
    if lt: "it_ofs it < length (it_src it)" and c: "it_src it ! it_ofs it = q"
      and q: "q = CharCode_SingleQuote \<or> q = CharCode_DoubleQuote" and na: "\<not> isAlpha h q"
      and nq: "q \<notin> set (drop (Suc (it_ofs it)) (it_src it))"
    for n ps
  proof -
    have ne: "\<not> eof it" and pk: "peek it = q"
      using lt c by (simp_all add: eof_def peek_def it_len_def)
    have s: "scan h it n = scan_String it q" for n
      using q na pk by (auto simp: scan_def Let_def)
    note r = scan_String_unterminated [OF lt nq]
    have e: "eof (snd (scan h it n))" for n
      by (simp add: s r eof_def it_len_def)
    show ?thesis
      using ne e [of "tokensPerLineCount ps"]
      by (simp add: s r e parse_loop_step parse_loop_eof emit_def Let_def new_Token_def
          setFirstFlag_def addToken_def)
  qed
  moreover have "map_option token_spans (parse h (CharCode_SingleQuote # codes ''hello''))
          = Some [(TokenType_String, 1, 5)]" if "\<not> isAlpha h CharCode_SingleQuote"
    using that by (simp add: parse_eval token_spans_def)
  ultimately show ?thesis
    using parse_total [of h src] by blast
qed

theorem unterminated_string_one_token_witness:
  "(0::nat) < length (CharCode_SingleQuote # codes ''hello'')
   \<and> (CharCode_SingleQuote # codes ''hello'') ! 0 = CharCode_SingleQuote
   \<and> \<not> isAlpha (spec_helpers []) CharCode_SingleQuote
   \<and> CharCode_SingleQuote \<notin> set (drop (Suc 0) (CharCode_SingleQuote # codes ''hello''))
   \<and> fst (scan (spec_helpers []) (new_ParserIterator (CharCode_SingleQuote # codes ''hello'')) 0)
       = [new_Token TokenType_String (CharCode_SingleQuote # codes ''hello'')
            \<lparr>range_offset = 1, range_row = 0, range_col = 1, range_length = 5\<rparr>]
   \<and> map_option token_spans (parse (spec_helpers []) (CharCode_SingleQuote # codes ''hello''))
       = Some [(TokenType_String, 1, 5)]"
proof -
  let ?src = "CharCode_SingleQuote # codes ''hello''"
  let ?it = "new_ParserIterator ?src"
  have h1: "it_ofs ?it < length (it_src ?it)" "it_src ?it ! it_ofs ?it = CharCode_SingleQuote"
    "\<not> isAlpha (spec_helpers []) CharCode_SingleQuote"
    "CharCode_SingleQuote \<notin> set (drop (Suc (it_ofs ?it)) (it_src ?it))"
    by (simp_all add: new_ParserIterator_def codes_def spec_eval)
  have len: "length ?src = 6" by (simp add: codes_def)
  show ?thesis
    using h1 len
      unterminated_string_one_token [of ?it CharCode_SingleQuote "spec_helpers []" 0
        "\<lparr>ps_ast = new_AbstractSyntaxTree, tokensPerLineOfs = - 1, tokensPerLineCount = 0\<rparr>" ?src]
    by (simp add: new_ParserIterator_def)
qed

subsection \<open>The plus sign before a name\<close>

text \<open>
  C5: where the cursor stands on a \<^verbatim>\<open>+\<close> and the next character is a
  symbol-constituent character (and not itself a \<^verbatim>\<open>+\<close>, which the rule for
  \<^verbatim>\<open>++\<close> takes first), the iteration emits, when the line has no token yet, a
  Reference token of the one character \<^verbatim>\<open>+\<close> and then an Identifier token for the
  name after it; when the line has tokens already, it emits the Identifier token only.
  So \<^verbatim>\<open>+irq\<close> gives a Reference and an Identifier token, and \<^verbatim>\<open>a+irq\<close> gives
  two Identifier tokens and no Reference token.
\<close>

theorem plus_reference_only_first_on_line:
  "(it_ofs it + 1 < length (it_src it) \<and> it_src it ! it_ofs it = CharCode_Plus
      \<and> isSymbolChar h (it_src it ! (it_ofs it + 1))
      \<and> it_src it ! (it_ofs it + 1) \<noteq> CharCode_Plus
    \<longrightarrow> fst (scan h it n) =
          (if n = 0
           then [new_Token TokenType_Reference (it_src it)
                   \<lparr>range_offset = it_ofs it, range_row = it_row it, range_col = it_col it,
                    range_length = 1\<rparr>]
           else [])
          @ [new_Token TokenType_Identifier (it_src it)
               \<lparr>range_offset = it_ofs it + 1, range_row = it_row it, range_col = it_col it + 1,
                range_length =
                  length (takeWhile (isSymbolChar h) (drop (it_ofs it + 1) (it_src it)))\<rparr>])
   \<and> map_option token_spans (parse (spec_helpers opcodes) (codes ''+irq''))
       = Some [(TokenType_Reference, 0, 1), (TokenType_Identifier, 1, 3)]
   \<and> map_option token_spans (parse (spec_helpers opcodes) (codes ''a+irq''))
       = Some [(TokenType_Identifier, 0, 1), (TokenType_Identifier, 2, 3)]"
proof -
  have "fst (scan h it n) =
          (if n = 0
           then [new_Token TokenType_Reference (it_src it)
                   \<lparr>range_offset = it_ofs it, range_row = it_row it, range_col = it_col it,
                    range_length = 1\<rparr>]
           else [])
          @ [new_Token TokenType_Identifier (it_src it)
               \<lparr>range_offset = it_ofs it + 1, range_row = it_row it, range_col = it_col it + 1,
                range_length =
                  length (takeWhile (isSymbolChar h) (drop (it_ofs it + 1) (it_src it)))\<rparr>]"
    if lt: "it_ofs it + 1 < length (it_src it)" and c: "it_src it ! it_ofs it = CharCode_Plus"
      and c2: "isSymbolChar h (it_src it ! (it_ofs it + 1))"
      and np: "it_src it ! (it_ofs it + 1) \<noteq> CharCode_Plus"
  proof -
    have pk: "peek it = CharCode_Plus"
      using lt c by (simp add: eof_def peek_def it_len_def)
    have d: "drop (Suc (it_ofs it)) (it_src it)
        = it_src it ! Suc (it_ofs it) # drop (Suc (Suc (it_ofs it))) (it_src it)"
      using lt by (simp add: Cons_nth_drop_Suc)
    have s: "scan h it n = scan_Identifier h it CharCode_Plus (it_src it ! (it_ofs it + 1)) n"
      using lt c2 np pk by (simp add: scan_def Let_def)
    show ?thesis
      using c2 d
      by (simp add: s scan_Identifier_def scan_while_closed Let_def next_it_def new_Range_def
          inc_def)
  qed
  moreover have "map_option token_spans (parse (spec_helpers opcodes) (codes ''+irq''))
       = Some [(TokenType_Reference, 0, 1), (TokenType_Identifier, 1, 3)]"
    by (simp add: parse_eval spec_eval token_spans_def)
  moreover have "map_option token_spans (parse (spec_helpers opcodes) (codes ''a+irq''))
       = Some [(TokenType_Identifier, 0, 1), (TokenType_Identifier, 2, 3)]"
    by (simp add: parse_eval spec_eval token_spans_def)
  ultimately show ?thesis by blast
qed

theorem plus_reference_only_first_on_line_witness:
  "it_ofs (new_ParserIterator (codes ''+irq'')) + 1 < length (it_src (new_ParserIterator (codes ''+irq'')))
   \<and> it_src (new_ParserIterator (codes ''+irq'')) ! 0 = CharCode_Plus
   \<and> isSymbolChar (spec_helpers []) (codes ''+irq'' ! 1)
   \<and> codes ''+irq'' ! 1 \<noteq> CharCode_Plus
   \<and> fst (scan (spec_helpers []) (new_ParserIterator (codes ''+irq'')) 0)
       = [new_Token TokenType_Reference (codes ''+irq'')
            \<lparr>range_offset = 0, range_row = 0, range_col = 0, range_length = 1\<rparr>,
          new_Token TokenType_Identifier (codes ''+irq'')
            \<lparr>range_offset = 1, range_row = 0, range_col = 1, range_length = 3\<rparr>]
   \<and> fst (scan (spec_helpers []) (new_ParserIterator (codes ''+irq'')) 1)
       = [new_Token TokenType_Identifier (codes ''+irq'')
            \<lparr>range_offset = 1, range_row = 0, range_col = 1, range_length = 3\<rparr>]"
proof -
  let ?it = "new_ParserIterator (codes ''+irq'')"
  have h1: "it_ofs ?it + 1 < length (it_src ?it)" "it_src ?it ! it_ofs ?it = CharCode_Plus"
    "isSymbolChar (spec_helpers []) (it_src ?it ! (it_ofs ?it + 1))"
    "it_src ?it ! (it_ofs ?it + 1) \<noteq> CharCode_Plus"
    by (simp_all add: new_ParserIterator_def codes_def spec_eval)
  have tw: "length (takeWhile (isSymbolChar (spec_helpers [])) (drop (it_ofs ?it + 1) (it_src ?it))) = 3"
    by (simp add: new_ParserIterator_def codes_def spec_eval)
  show ?thesis
    using h1 tw
      plus_reference_only_first_on_line [of ?it "spec_helpers []" 0 "[]"]
      plus_reference_only_first_on_line [of ?it "spec_helpers []" 1 "[]"]
    by (simp add: new_ParserIterator_def)
qed

subsection \<open>The statement classifier\<close>

text \<open>
  C4: on a logical line (at least one token, all of them in the stream), \<^verbatim>\<open>lexer\<close>
  adds a Definition statement exactly when the first token is an Identifier that is no
  opcode, and the statement then spans that one token, or when the line has more than
  one token, the first is a Macro token with the text \<^verbatim>\<open>!macro\<close>, \<^verbatim>\<open>!set\<close> or
  \<^verbatim>\<open>!addr\<close> and the second is an Identifier that is no opcode, and the statement then
  spans the second token only. It adds at most one statement, and every Definition
  statement it adds, it adds to the definitions as well.
\<close>

theorem lexer_definition_iff:
  assumes "1 \<le> count" and "ofs + count \<le> length (ast_tokens ast)"
  shows "\<exists>ast'. lexer h ast (int ofs) count = Some ast'
     \<and> ast_tokens ast' = ast_tokens ast
     \<and> ((\<exists>st. ast_statements ast' = ast_statements ast @ [st]
              \<and> statement_type st = StatementType_Definition)
          = (defines_by_label h (ast_tokens ast) ofs
             \<or> defines_by_directive h (ast_tokens ast) ofs count))
     \<and> (defines_by_label h (ast_tokens ast) ofs \<longrightarrow>
          ast_statements ast'
            = ast_statements ast @ [new_Statement StatementType_Definition ofs 1])
     \<and> (defines_by_directive h (ast_tokens ast) ofs count \<longrightarrow>
          ast_statements ast'
            = ast_statements ast @ [new_Statement StatementType_Definition (ofs + 1) 1])
     \<and> ast_definitions ast'
          = ast_definitions ast
            @ filter (\<lambda>st. statement_type st = StatementType_Definition)
                (drop (length (ast_statements ast)) (ast_statements ast'))
     \<and> length (ast_statements ast') \<le> length (ast_statements ast) + 1"
proof -
  have excl: "\<not> (defines_by_label h (ast_tokens ast) ofs
      \<and> defines_by_directive h (ast_tokens ast) ofs count)"
    by (auto simp: defines_by_label_def defines_by_directive_def)
  show ?thesis
    using excl
    by (auto simp: lexer_cases [OF assms] new_Statement_def)
qed

theorem lexer_definition_iff_witness:
  "(1::nat) \<le> 2
   \<and> 0 + 2 \<le> length (ast_tokens
        \<lparr>ast_tokens =
           [new_Token TokenType_Macro (codes ''!macro foo'')
              \<lparr>range_offset = 0, range_row = 0, range_col = 0, range_length = 6\<rparr>,
            new_Token TokenType_Identifier (codes ''!macro foo'')
              \<lparr>range_offset = 7, range_row = 0, range_col = 7, range_length = 3\<rparr>],
         ast_statements = [], ast_definitions = []\<rparr>)
   \<and> (\<exists>ast'. lexer (spec_helpers [codes ''lda''])
        \<lparr>ast_tokens =
           [new_Token TokenType_Macro (codes ''!macro foo'')
              \<lparr>range_offset = 0, range_row = 0, range_col = 0, range_length = 6\<rparr>,
            new_Token TokenType_Identifier (codes ''!macro foo'')
              \<lparr>range_offset = 7, range_row = 0, range_col = 7, range_length = 3\<rparr>],
         ast_statements = [], ast_definitions = []\<rparr> 0 2 = Some ast'
        \<and> ast_statements ast' = [new_Statement StatementType_Definition 1 1]
        \<and> ast_definitions ast' = [new_Statement StatementType_Definition 1 1])"
proof -
  let ?h = "spec_helpers [codes ''lda'']"
  let ?ast = "\<lparr>ast_tokens =
           [new_Token TokenType_Macro (codes ''!macro foo'')
              \<lparr>range_offset = 0, range_row = 0, range_col = 0, range_length = 6\<rparr>,
            new_Token TokenType_Identifier (codes ''!macro foo'')
              \<lparr>range_offset = 7, range_row = 0, range_col = 7, range_length = 3\<rparr>],
         ast_statements = [], ast_definitions = []\<rparr>"
  have c: "(1::nat) \<le> 2" and l: "0 + 2 \<le> length (ast_tokens ?ast)"
    by simp_all
  have d: "defines_by_directive ?h (ast_tokens ?ast) 0 2"
    by (simp add: defines_by_directive_def new_Token_def token_text_def substring_def codes_def
        spec_eval)
  have nl: "\<not> defines_by_label ?h (ast_tokens ?ast) 0"
    by (simp add: defines_by_label_def new_Token_def)
  obtain ast' where a: "lexer ?h ?ast (int 0) 2 = Some ast'"
    and s: "defines_by_directive ?h (ast_tokens ?ast) 0 2 \<longrightarrow>
          ast_statements ast'
            = ast_statements ?ast @ [new_Statement StatementType_Definition (0 + 1) 1]"
    and df: "ast_definitions ast'
          = ast_definitions ?ast
            @ filter (\<lambda>st. statement_type st = StatementType_Definition)
                (drop (length (ast_statements ?ast)) (ast_statements ast'))"
    using lexer_definition_iff [OF c l, of ?h] by blast
  from s d have s': "ast_statements ast' = [new_Statement StatementType_Definition 1 1]"
    by simp
  with df have "ast_definitions ast' = [new_Statement StatementType_Definition 1 1]"
    by (simp add: new_Statement_def)
  with a s' c l show ?thesis by simp
qed

subsection \<open>Position lookup\<close>

lemma loose_eq_period_never: "\<not> loose_eq_period c"
  by (simp add: loose_eq_period_def toNumber_period_def)

lemma expandLeft_through_periods:
  "p \<le> length source \<Longrightarrow>
   expandLeft h False source p
     = p - length (takeWhile (\<lambda>c. c = CharCode_Period \<or> isSymbolChar h c) (rev (take p source)))"
proof (induction p)
  case 0
  then show ?case by simp
next
  case (Suc p)
  then have "take (Suc p) source = take p source @ [source ! p]"
    by (simp add: take_Suc_conv_app_nth)
  with Suc show ?case
    by (auto simp: charCodeAt_def on_code_def loose_eq_period_never Let_def)
qed

text \<open>
  C2, on the code: the test of line 303 is never true, so that a period does not stop
  the expansion to the left. For the line \<^verbatim>\<open>a.b\<close> and the offset 2, in the
  non-greedy mode, the expansion takes the period and goes on through \<^verbatim>\<open>a\<close>, where
  \<^verbatim>\<open>a\<close> is a symbol-constituent character: the result is \<^verbatim>\<open>a.b\<close>, not \<^verbatim>\<open>.b\<close>.
\<close>

theorem getTokenAtSourcePos_period_does_not_stop:
  "getTokenAtSourcePos h (codes ''a.b'') 2 False False
     = Some (if isSymbolChar h 97 then codes ''a.b'' else codes ''.b'')
   \<and> getTokenAtSourcePos (spec_helpers opcodes) (codes ''a.b'') 2 False False
     = Some (codes ''a.b'')
   \<and> expandLeft h False (codes ''a.b'') 2 = (if isSymbolChar h 97 then 0 else 1)
   \<and> \<not> loose_eq_period c"
proof -
  have l: "(2::nat) \<le> length (codes ''a.b'')" by (simp add: codes_def)
  have r: "expandRight h (codes ''a.b'') 3 = 3" for h
    by (subst expandRight.simps) (simp add: codes_def)
  have t: "take 2 (codes ''a.b'') = codes ''a.''" by (simp add: codes_def)
  have e: "expandLeft h False (codes ''a.b'') 2 = (if isSymbolChar h 97 then 0 else 1)" for h
    unfolding expandLeft_through_periods [OF l] t by (simp add: codes_def)
  have g: "getTokenAtSourcePos h (codes ''a.b'') 2 False False
     = Some (if isSymbolChar h 97 then codes ''a.b'' else codes ''.b'')" for h
    apply (simp add: getTokenAtSourcePos_def Let_def e r)
    apply (simp add: substring_def trim_def js_trimmed_def codes_def)
    done
  have "isSymbolChar (spec_helpers opcodes) 97" by (simp add: spec_eval)
  with g [of "spec_helpers opcodes"] g [of h] e [of h] loose_eq_period_never [of c]
  show ?thesis by simp
qed

end

